theory Spec2Isabelle
  imports Main "HOL-Library.Multiset" "HOL-Library.List_Lexorder" "HOL-Library.Char_ord"
begin

section \<open>Strings, lines and the host document\<close>

text \<open>
  The extension (\<^verbatim>\<open>src/extension.ts\<close>) works on the text of an editor document. A JavaScript
  string is modelled as a \<^typ>\<open>string\<close>, each character one code unit below 256. A document
  is its text with LF line breaks; the host presents it as \<^verbatim>\<open>lineCount\<close> lines, each
  \<^verbatim>\<open>lineAt(i).text\<close> without its line break, and \<^verbatim>\<open>getText()\<close> is the lines joined by LF.
\<close>

definition LF :: char where
  "LF = CHR 0x0A"

text \<open>ECMAScript white space and line terminators among the code units below 256:
  TAB, LF, VT, FF, CR, SPACE and NBSP. \<^verbatim>\<open>String.prototype.trim\<close> and the regular
  expression class \<^verbatim>\<open>\s\<close> both use this set.\<close>

definition isSpace :: "char \<Rightarrow> bool" where
  "isSpace c \<longleftrightarrow> c = CHR 0x09 \<or> c = CHR 0x0A \<or> c = CHR 0x0B \<or> c = CHR 0x0C
     \<or> c = CHR 0x0D \<or> c = CHR 0x20 \<or> c = CHR 0xA0"

definition trim :: "string \<Rightarrow> string" where
  "trim s = rev (dropWhile isSpace (rev (dropWhile isSpace s)))"

definition endsWith :: "string \<Rightarrow> string \<Rightarrow> bool" where
  "endsWith s suffix \<longleftrightarrow>
     length suffix \<le> length s \<and> drop (length s - length suffix) s = suffix"

text \<open>The test \<^verbatim>\<open>text.endsWith(':') && text.length > 1\<close> on the trimmed text of a line,
  which the source repeats in \<^verbatim>\<open>updateDecorations\<close>, \<^verbatim>\<open>provideFoldingRanges\<close>,
  \<^verbatim>\<open>tix.sortByContext\<close> and \<^verbatim>\<open>tix.archive\<close>.\<close>

definition isProjectHeader :: "string \<Rightarrow> bool" where
  "isProjectHeader text \<longleftrightarrow> endsWith text '':'' \<and> length text > 1"

text \<open>The lines of a text: split at every LF. A text always has at least one line.\<close>

fun splitLines :: "string \<Rightarrow> string list" where
  "splitLines [] = [[]]"
| "splitLines (c # cs) =
     (if c = LF then [] # splitLines cs
      else (case splitLines cs of l # ls \<Rightarrow> (c # l) # ls | [] \<Rightarrow> [[c]]))"

text \<open>\<^verbatim>\<open>Array.prototype.join('\n')\<close>; the empty array joins to the empty string.\<close>

fun joinLines :: "string list \<Rightarrow> string" where
  "joinLines [] = []"
| "joinLines [l] = l"
| "joinLines (l # ls) = l @ LF # joinLines ls"

section \<open>Decorations: project headers and done items\<close>

text \<open>
  The loop of \<^verbatim>\<open>updateDecorations\<close> (lines 71--85) over the lines of the document. A
  \<^verbatim>\<open>line.range\<close> covers one whole line and is kept as the index of that line. The flag
  \<^verbatim>\<open>inDoneSection\<close> is threaded through the loop.
\<close>

record decorations =
  projectRanges :: "nat list"
  doneItemRanges :: "nat list"

fun decorateLoop :: "string list \<Rightarrow> nat \<Rightarrow> bool \<Rightarrow> decorations \<Rightarrow> decorations" where
  "decorateLoop [] i inDoneSection d = d"
| "decorateLoop (l # ls) i inDoneSection d =
     (let text = trim l in
      if isProjectHeader text
      then decorateLoop ls (Suc i) (text = ''Done:'')
             (d\<lparr>projectRanges := projectRanges d @ [i]\<rparr>)
      else decorateLoop ls (Suc i) inDoneSection
             (if inDoneSection \<and> length text > 0
              then d\<lparr>doneItemRanges := doneItemRanges d @ [i]\<rparr> else d))"

definition updateDecorations :: "string \<Rightarrow> decorations" where
  "updateDecorations documentText =
     decorateLoop (splitLines documentText) 0 False
       \<lparr>projectRanges = [], doneItemRanges = []\<rparr>"

section \<open>Context colours\<close>

text \<open>
  \<^verbatim>\<open>CONTEXT_COLORS\<close> and the two module-level maps \<^verbatim>\<open>decorationTypes\<close> and
  \<^verbatim>\<open>contextColorMap\<close>. A JavaScript \<^verbatim>\<open>Map\<close> keeps its entries in insertion order with
  distinct keys; it is an association list here, \<^verbatim>\<open>size\<close> its length. A decoration type
  created by the host is represented by the colour it was created with.
\<close>

definition CONTEXT_COLORS :: "string list" where
  "CONTEXT_COLORS =
     [''#F48771'', ''#4EC9B0'', ''#DCDCAA'', ''#C586C0'', ''#6BCB6B'', ''#CE9178'',
      ''#9CDCFE'', ''#D16969'', ''#4FC1FF'', ''#E8AB6D'', ''#B5CEA8'', ''#DA70D6'',
      ''#87CEEB'', ''#F0E68C'', ''#FF6B9D'', ''#20B2AA'']"

datatype decorationType = DecorationType (color: string)

type_synonym ('k, 'v) jsmap = "('k \<times> 'v) list"

definition mapHas :: "('k, 'v) jsmap \<Rightarrow> 'k \<Rightarrow> bool" where
  "mapHas m k \<longleftrightarrow> map_of m k \<noteq> None"

definition mapGet :: "('k, 'v) jsmap \<Rightarrow> 'k \<Rightarrow> 'v option" where
  "mapGet m k = map_of m k"

definition mapSet :: "('k, 'v) jsmap \<Rightarrow> 'k \<Rightarrow> 'v \<Rightarrow> ('k, 'v) jsmap" where
  "mapSet m k v =
     (if mapHas m k then map (\<lambda>(k', v'). if k' = k then (k', v) else (k', v')) m
      else m @ [(k, v)])"

definition mapSize :: "('k, 'v) jsmap \<Rightarrow> nat" where
  "mapSize m = length m"

record colorState =
  decorationTypes :: "(string, decorationType) jsmap"
  contextColorMap :: "(string, nat) jsmap"

definition initialState :: colorState where
  "initialState = \<lparr>decorationTypes = [], contextColorMap = []\<rparr>"

text \<open>\<^verbatim>\<open>getContextDecorationType\<close>: the result is the decoration type and the updated maps.
  The two non-null assertions of the source read a key that was stored just before; the
  model returns \<open>None\<close> where the key would be missing.\<close>

definition getContextDecorationType ::
  "string \<Rightarrow> colorState \<Rightarrow> decorationType option \<times> colorState" where
  "getContextDecorationType context st =
     (let st1 =
        (if \<not> mapHas (decorationTypes st) context then
           (let ccm = (if \<not> mapHas (contextColorMap st) context
                       then mapSet (contextColorMap st) context
                              (mapSize (contextColorMap st) mod length CONTEXT_COLORS)
                       else contextColorMap st)
            in (case mapGet ccm context of
                  None \<Rightarrow> st\<lparr>contextColorMap := ccm\<rparr>
                | Some colorIndex \<Rightarrow>
                    st\<lparr>contextColorMap := ccm,
                       decorationTypes :=
                         mapSet (decorationTypes st) context
                           (DecorationType (CONTEXT_COLORS ! colorIndex))\<rparr>))
         else st)
      in (mapGet (decorationTypes st1) context, st1))"

text \<open>The palette index a context has in the map after a call, and the indices of a whole
  sequence of calls, each on the maps the previous call left.\<close>

definition colorFor :: "string \<Rightarrow> colorState \<Rightarrow> nat option \<times> colorState" where
  "colorFor context st =
     (let st1 = snd (getContextDecorationType context st)
      in (mapGet (contextColorMap st1) context, st1))"

fun colorsFor :: "string list \<Rightarrow> colorState \<Rightarrow> nat option list" where
  "colorsFor [] st = []"
| "colorsFor (c # cs) st = fst (colorFor c st) # colorsFor cs (snd (colorFor c st))"

section \<open>Folding ranges\<close>

text \<open>
  \<^verbatim>\<open>TixFoldingRangeProvider.provideFoldingRanges\<close>. A \<^verbatim>\<open>FoldingRange(start, end)\<close> is the
  pair of its two line numbers; \<^verbatim>\<open>projectStart\<close> is \<open>None\<close> for \<^verbatim>\<open>null\<close>. The inner
  \<^verbatim>\<open>while\<close> loop steps \<^verbatim>\<open>endLine\<close> down over empty lines and stops at \<^verbatim>\<open>projectStart\<close>.
\<close>

fun lastNonEmpty :: "string list \<Rightarrow> nat \<Rightarrow> nat \<Rightarrow> nat" where
  "lastNonEmpty ls projectStart 0 = 0"
| "lastNonEmpty ls projectStart (Suc e) =
     (if Suc e > projectStart \<and> trim (ls ! Suc e) = []
      then lastNonEmpty ls projectStart e else Suc e)"

definition closeProject ::
  "string list \<Rightarrow> nat \<Rightarrow> nat \<Rightarrow> (nat \<times> nat) list \<Rightarrow> (nat \<times> nat) list" where
  "closeProject ls projectStart endLine0 ranges =
     (let endLine = lastNonEmpty ls projectStart endLine0
      in if endLine > projectStart then ranges @ [(projectStart, endLine)] else ranges)"

definition foldingStep ::
  "string list \<Rightarrow> nat \<Rightarrow> nat option \<times> (nat \<times> nat) list \<Rightarrow> nat option \<times> (nat \<times> nat) list" where
  "foldingStep ls i st =
     (case st of (projectStart, ranges) \<Rightarrow>
        if isProjectHeader (trim (ls ! i))
        then (Some i, (case projectStart of
                         Some ps \<Rightarrow> closeProject ls ps (i - 1) ranges
                       | None \<Rightarrow> ranges))
        else (projectStart, ranges))"

definition provideFoldingRanges :: "string \<Rightarrow> (nat \<times> nat) list" where
  "provideFoldingRanges documentText =
     (let ls = splitLines documentText
      in (case fold (foldingStep ls) [0..<length ls] (None, []) of
            (Some ps, ranges) \<Rightarrow> closeProject ls ps (length ls - 1) ranges
          | (None, ranges) \<Rightarrow> ranges))"

section \<open>Positions, offsets and edits of the host\<close>

text \<open>
  A position is a line and a character. The host adjusts a position outside the document
  to the nearest one inside (a line past the last one becomes the end of the document, a
  character past the end of its line becomes that end) before it is turned into an offset
  of the text. All edits of one \<^verbatim>\<open>editor.edit\<close> callback address the text as it was before
  the callback.
\<close>

type_synonym position = "nat \<times> nat"

definition lineStart :: "string list \<Rightarrow> nat \<Rightarrow> nat" where
  "lineStart ls l = sum_list (map (\<lambda>t. Suc (length t)) (take l ls))"

definition offsetAt :: "string list \<Rightarrow> position \<Rightarrow> nat" where
  "offsetAt ls p =
     (case p of (l, c) \<Rightarrow>
        if l \<ge> length ls then length (joinLines ls)
        else lineStart ls l + min c (length (ls ! l)))"

text \<open>\<^verbatim>\<open>document.positionAt(offset)\<close>: the offset is first brought into the text.\<close>

definition positionAt :: "string \<Rightarrow> int \<Rightarrow> position" where
  "positionAt text offset =
     (let off = min (nat offset) (length text);
          pre = take off text;
          l = length (filter (\<lambda>c. c = LF) pre)
      in (l, length (takeWhile (\<lambda>c. c \<noteq> LF) (rev pre))))"

text \<open>\<^verbatim>\<open>lineAt(i).range.end\<close> and \<^verbatim>\<open>lineAt(i).rangeIncludingLineBreak\<close>; the last line has
  no line break.\<close>

definition lineEnd :: "string list \<Rightarrow> nat \<Rightarrow> position" where
  "lineEnd ls i = (i, length (ls ! i))"

definition rangeIncludingLineBreak :: "string list \<Rightarrow> nat \<Rightarrow> position \<times> position" where
  "rangeIncludingLineBreak ls i =
     (if Suc i < length ls then ((i, 0), (Suc i, 0)) else ((i, 0), lineEnd ls i))"

definition replaceRange :: "string \<Rightarrow> nat \<Rightarrow> nat \<Rightarrow> string \<Rightarrow> string" where
  "replaceRange text s e new = take s text @ new @ drop e text"

text \<open>One deletion and one insertion made in the same callback. Both offsets are offsets
  of the original text. The host refuses an insertion strictly inside the deleted range
  (overlapping edits) and the document stays as it was.\<close>

definition applyDeleteInsert :: "string \<Rightarrow> nat \<times> nat \<Rightarrow> nat \<Rightarrow> string \<Rightarrow> string" where
  "applyDeleteInsert text del ip new =
     (case del of (ds, de) \<Rightarrow>
        if ip \<le> ds then replaceRange (replaceRange text ds de []) ip ip new
        else if de \<le> ip then replaceRange (replaceRange text ip ip new) ds de []
        else text)"

section \<open>Mark done\<close>

text \<open>\<^verbatim>\<open>String.prototype.indexOf\<close>: the offset of the first occurrence, or \<open>-1\<close>.\<close>

fun startsWith :: "string \<Rightarrow> string \<Rightarrow> bool" where
  "startsWith s [] = True"
| "startsWith [] (p # ps) = False"
| "startsWith (c # cs) (p # ps) = (c = p \<and> startsWith cs ps)"

fun indexOf :: "string \<Rightarrow> string \<Rightarrow> int" where
  "indexOf [] pat = (if pat = [] then 0 else -1)"
| "indexOf (c # cs) pat =
     (if startsWith (c # cs) pat then 0
      else (let r = indexOf cs pat in if r < 0 then -1 else r + 1))"

text \<open>\<^verbatim>\<open>text.match(/^Done:$/m)\<close>: with the flag \<^verbatim>\<open>m\<close> the anchors match at line breaks, so
  the expression matches exactly when some line of the text is \<^verbatim>\<open>Done:\<close>, nothing before or
  after it on the line.\<close>

definition doneMatch :: "string \<Rightarrow> bool" where
  "doneMatch text \<longleftrightarrow> ''Done:'' \<in> set (splitLines text)"

text \<open>
  The command \<^verbatim>\<open>tix.markDone\<close> on the text of the document and the line of the cursor; the
  result is the text after the edit. The host has the cursor on a line of the document;
  \<^verbatim>\<open>lineAt\<close> throws for any other line and nothing is edited.
\<close>

definition markDone :: "string \<Rightarrow> nat \<Rightarrow> string" where
  "markDone documentText line =
     (let ls = splitLines documentText in
      if line \<ge> length ls then documentText
      else
        (let lineText = ls ! line in
         if trim lineText = [] \<or> endsWith lineText '':'' then documentText
         else
           (let lineRange = rangeIncludingLineBreak ls line;
                del = (offsetAt ls (fst lineRange), offsetAt ls (snd lineRange))
            in if doneMatch documentText
               then
                 (let doneIndex = indexOf documentText ''Done:'';
                      donePosition = positionAt documentText (doneIndex + int (length ''Done:''))
                  in applyDeleteInsert documentText del
                       (offsetAt ls (fst donePosition + 1, 0)) (lineText @ [LF]))
               else
                 (let endPosition = lineEnd ls (length ls - 1)
                  in applyDeleteInsert documentText del (offsetAt ls endPosition)
                       ([LF, LF] @ ''Done:'' @ [LF] @ lineText @ [LF])))))"

section \<open>Sort by context\<close>

text \<open>
  \<^verbatim>\<open>contextPattern = /^(.+?)\s+-\s/\<close> applied to one item. The group is lazy: it takes the
  shortest non-empty run of characters (none of them a line terminator) after which white
  space, a hyphen and one white space character follow. \<open>contextOf\<close> is \<^verbatim>\<open>match[1]\<close>, or
  \<open>None\<close> when the pattern does not match.
\<close>

definition isDot :: "char \<Rightarrow> bool" where
  "isDot c \<longleftrightarrow> c \<noteq> CHR 0x0A \<and> c \<noteq> CHR 0x0D"

definition matchSeparator :: "string \<Rightarrow> bool" where
  "matchSeparator s =
     (let r = dropWhile isSpace s
      in length r < length s \<and>
         (case r of c1 # c2 # _ \<Rightarrow> c1 = CHR ''-'' \<and> isSpace c2 | _ \<Rightarrow> False))"

fun scanContext :: "string \<Rightarrow> string \<Rightarrow> string option" where
  "scanContext acc [] = (if acc \<noteq> [] \<and> matchSeparator [] then Some acc else None)"
| "scanContext acc (c # cs) =
     (if acc \<noteq> [] \<and> matchSeparator (c # cs) then Some acc
      else if isDot c then scanContext (acc @ [c]) cs else None)"

definition contextOf :: "string \<Rightarrow> string option" where
  "contextOf a = scanContext [] a"

text \<open>The comparator handed to \<^verbatim>\<open>items.sort\<close>. \<^verbatim>\<open>String.prototype.localeCompare\<close> is the
  collation of the host's locale and is a parameter of the model.\<close>

definition sortKey :: "string \<Rightarrow> string" where
  "sortKey a = (case contextOf a of Some c \<Rightarrow> c | None \<Rightarrow> [])"

definition compareItems :: "(string \<Rightarrow> string \<Rightarrow> int) \<Rightarrow> string \<Rightarrow> string \<Rightarrow> int" where
  "compareItems localeCompare a b = localeCompare (sortKey a) (sortKey b)"

text \<open>\<^verbatim>\<open>Array.prototype.sort\<close> is stable. With a consistent comparator its result is the one
  stable ascending arrangement, which insertion from the right computes.\<close>

fun insertBy :: "('a \<Rightarrow> 'a \<Rightarrow> int) \<Rightarrow> 'a \<Rightarrow> 'a list \<Rightarrow> 'a list" where
  "insertBy cmp x [] = [x]"
| "insertBy cmp x (y # ys) = (if cmp x y \<le> 0 then x # y # ys else y # insertBy cmp x ys)"

definition sortBy :: "('a \<Rightarrow> 'a \<Rightarrow> int) \<Rightarrow> 'a list \<Rightarrow> 'a list" where
  "sortBy cmp xs = foldr (insertBy cmp) xs []"

record project =
  header :: string
  items :: "string list"
  trailingEmpty :: nat

text \<open>The body of the parsing loop for one line; \<^verbatim>\<open>currentProject\<close> is \<open>None\<close> for
  \<^verbatim>\<open>null\<close>. A line before the first header belongs to no project.\<close>

definition parseStep ::
  "project list \<times> project option \<Rightarrow> string \<Rightarrow> project list \<times> project option" where
  "parseStep st lineText =
     (case st of (projects, currentProject) \<Rightarrow>
        (let trimmed = trim lineText in
         if isProjectHeader trimmed
         then ((case currentProject of Some p \<Rightarrow> projects @ [p] | None \<Rightarrow> projects),
               Some \<lparr>header = lineText, items = [], trailingEmpty = 0\<rparr>)
         else (case currentProject of
                 None \<Rightarrow> (projects, None)
               | Some p \<Rightarrow>
                   if trimmed = []
                   then (projects, Some (p\<lparr>trailingEmpty := Suc (trailingEmpty p)\<rparr>))
                   else (projects,
                         Some (p\<lparr>items := items p @ replicate (trailingEmpty p) [] @ [lineText],
                                 trailingEmpty := 0\<rparr>)))))"

definition parseProjects :: "string list \<Rightarrow> project list" where
  "parseProjects ls =
     (case foldl parseStep ([], None) ls of
        (projects, Some p) \<Rightarrow> projects @ [p]
      | (projects, None) \<Rightarrow> projects)"

definition sortProject :: "(string \<Rightarrow> string \<Rightarrow> int) \<Rightarrow> project \<Rightarrow> project" where
  "sortProject localeCompare p = p\<lparr>items := sortBy (compareItems localeCompare) (items p)\<rparr>"

fun rebuildLines :: "project list \<Rightarrow> string list" where
  "rebuildLines [] = []"
| "rebuildLines [p] = header p # items p"
| "rebuildLines (p # ps) = header p # items p @ [[]] @ rebuildLines ps"

text \<open>The command \<^verbatim>\<open>tix.sortByContext\<close>: the whole text, from the start of the first line to
  the end of the last, is replaced by the rebuilt lines.\<close>

definition sortByContext :: "(string \<Rightarrow> string \<Rightarrow> int) \<Rightarrow> string \<Rightarrow> string" where
  "sortByContext localeCompare documentText =
     joinLines (rebuildLines (map (sortProject localeCompare)
       (parseProjects (splitLines documentText))))"

section \<open>Archive\<close>

text \<open>
  The search loop of \<^verbatim>\<open>tix.archive\<close> over the line numbers still to visit; the sentinel
  \<open>-1\<close> of \<^verbatim>\<open>doneStartLine\<close> and \<^verbatim>\<open>doneEndLine\<close> is \<open>None\<close>. The \<^verbatim>\<open>break\<close> returns at once.
\<close>

fun findDone :: "string list \<Rightarrow> nat list \<Rightarrow> nat option \<Rightarrow> nat option \<times> nat option" where
  "findDone ls [] doneStartLine = (doneStartLine, None)"
| "findDone ls (i # rest) doneStartLine =
     (let text = trim (ls ! i) in
      if text = ''Done:'' then findDone ls rest (Some i)
      else if doneStartLine \<noteq> None \<and> isProjectHeader text then (doneStartLine, Some (i - 1))
      else findDone ls rest doneStartLine)"

datatype message = NoDoneSectionFound | NoItemsToArchive | ArchivedItems nat

record archiveResult =
  shown :: message
  appended :: "string option"
  newText :: string

text \<open>
  The command on the text of the document. \<open>date\<close> stands for
  \<^verbatim>\<open>new Date().toISOString().split('T')[0]\<close>. The result holds the information message,
  what is appended to the archive file (if anything) and the text after the edit.
\<close>

definition archive :: "string \<Rightarrow> string \<Rightarrow> archiveResult" where
  "archive date documentText =
     (let ls = splitLines documentText in
      case findDone ls [0..<length ls] None of
        (None, _) \<Rightarrow>
          \<lparr>shown = NoDoneSectionFound, appended = None, newText = documentText\<rparr>
      | (Some doneStartLine, doneEnd) \<Rightarrow>
          (let doneEndLine = (case doneEnd of None \<Rightarrow> length ls - 1 | Some e \<Rightarrow> e);
               doneItems = filter (\<lambda>text. trim text \<noteq> [])
                             (map (\<lambda>i. ls ! i) [Suc doneStartLine..<Suc doneEndLine])
           in if doneItems = []
              then \<lparr>shown = NoItemsToArchive, appended = None, newText = documentText\<rparr>
              else
                \<lparr>shown = ArchivedItems (length doneItems),
                 appended = Some ([LF] @ ''Archived '' @ date @ '':'' @ [LF]
                                    @ joinLines doneItems @ [LF]),
                 newText = replaceRange documentText
                             (offsetAt ls (Suc doneStartLine, 0))
                             (offsetAt ls (Suc doneEndLine, 0)) []\<rparr>))"

section \<open>Notions used in the statements and proofs\<close>

text \<open>The contexts of a call sequence in the order they are first seen, and the place of
  a context in that order.\<close>

definition firstSeen :: "string list \<Rightarrow> string list" where
  "firstSeen cs = rev (remdups (rev cs))"

definition placeOf :: "string \<Rightarrow> string list \<Rightarrow> nat" where
  "placeOf c cs = length (takeWhile (\<lambda>x. x \<noteq> c) cs)"

text \<open>The list of contexts seen so far after one more call, and the shape of the two maps
  after the contexts \<open>ks\<close> have been seen in this order.\<close>

definition seenAfter :: "string list \<Rightarrow> string \<Rightarrow> string list" where
  "seenAfter ks c = (if c \<in> set ks then ks else ks @ [c])"

definition colorInv :: "string list \<Rightarrow> colorState \<Rightarrow> bool" where
  "colorInv ks st \<longleftrightarrow>
     contextColorMap st = map (\<lambda>k. (k, placeOf k ks mod length CONTEXT_COLORS)) ks \<and>
     map fst (decorationTypes st) = ks \<and> distinct ks"

text \<open>Line \<open>k\<close> of a document is a project header; line \<open>k\<close> is blank.\<close>

definition headerAt :: "string list \<Rightarrow> nat \<Rightarrow> bool" where
  "headerAt ls k \<longleftrightarrow> isProjectHeader (trim (ls ! k))"

definition blankAt :: "string list \<Rightarrow> nat \<Rightarrow> bool" where
  "blankAt ls k \<longleftrightarrow> trim (ls ! k) = []"

text \<open>
  \<open>foldsSection ls s e\<close>: line \<open>s\<close> is a header, line \<open>e\<close> lies in the section of that header
  (no header from \<open>s + 1\<close> to \<open>e\<close>), is not blank, and every later line of the section (up to
  the next header or the end of the document) is blank. So \<open>e\<close> is the last non-blank line
  of a section whose body is not all blank.
\<close>

definition foldsSection :: "string list \<Rightarrow> nat \<Rightarrow> nat \<Rightarrow> bool" where
  "foldsSection ls s e \<longleftrightarrow>
     s < e \<and> e < length ls \<and> headerAt ls s \<and> \<not> blankAt ls e \<and>
     (\<forall>k. s < k \<and> k \<le> e \<longrightarrow> \<not> headerAt ls k) \<and>
     (\<forall>k. e < k \<and> k < length ls \<and> (\<forall>j. e < j \<and> j \<le> k \<longrightarrow> \<not> headerAt ls j)
          \<longrightarrow> blankAt ls k)"

text \<open>The state of the folding loop before line \<open>i\<close> is visited: \<open>projectStart\<close> is the last
  header before \<open>i\<close>, and the ranges are those of the sections closed by a header
  before \<open>i\<close>, in ascending order.\<close>

definition foldInv :: "string list \<Rightarrow> nat \<Rightarrow> nat option \<times> (nat \<times> nat) list \<Rightarrow> bool" where
  "foldInv ls i st \<longleftrightarrow>
     (case st of (ps, ranges) \<Rightarrow>
        (case ps of None \<Rightarrow> (\<forall>k<i. \<not> headerAt ls k)
         | Some p \<Rightarrow> p < i \<and> headerAt ls p \<and> (\<forall>k. p < k \<and> k < i \<longrightarrow> \<not> headerAt ls k)) \<and>
        (\<forall>s e. (s, e) \<in> set ranges \<longleftrightarrow>
           foldsSection ls s e \<and> (\<exists>h. e < h \<and> h < i \<and> headerAt ls h)) \<and>
        sorted_wrt (<) (map fst ranges))"

text \<open>The lines \<open>xs\<close> written out, each followed by its line break.\<close>

definition linesWithBreaks :: "string list \<Rightarrow> string" where
  "linesWithBreaks xs = concat (map (\<lambda>l. l @ [LF]) xs)"

text \<open>The body of the section whose header is line \<open>s\<close>: the lines after the header up to,
  and not including, the next project header.\<close>

definition sectionBody :: "string list \<Rightarrow> nat \<Rightarrow> string list" where
  "sectionBody ls s = takeWhile (\<lambda>l. \<not> isProjectHeader (trim l)) (drop (Suc s) ls)"

text \<open>
  What the sort needs from the collation: any two keys are comparable and the order is
  transitive (a consistent comparator), and no key sorts strictly before the empty key.
\<close>

definition consistentComparator :: "(string \<Rightarrow> string \<Rightarrow> int) \<Rightarrow> bool" where
  "consistentComparator cmp \<longleftrightarrow>
     (\<forall>a b. cmp a b \<le> 0 \<or> cmp b a \<le> 0) \<and>
     (\<forall>a b c. cmp a b \<le> 0 \<and> cmp b c \<le> 0 \<longrightarrow> cmp a c \<le> 0)"

definition emptyFirst :: "(string \<Rightarrow> string \<Rightarrow> int) \<Rightarrow> bool" where
  "emptyFirst cmp \<longleftrightarrow> (\<forall>k. cmp [] k \<le> 0)"

text \<open>A collation to run the transform with: the order of the code units.\<close>

definition codeUnitCompare :: "string \<Rightarrow> string \<Rightarrow> int" where
  "codeUnitCompare a b = (if a = b then 0 else if a < b then -1 else 1)"

text \<open>Item \<open>a\<close> may stand before item \<open>b\<close>: the context of \<open>a\<close> is not after the context
  of \<open>b\<close>.\<close>

definition inOrder :: "(string \<Rightarrow> string \<Rightarrow> int) \<Rightarrow> string \<Rightarrow> string \<Rightarrow> bool" where
  "inOrder cmp a b \<longleftrightarrow> cmp (sortKey a) (sortKey b) \<le> 0"

text \<open>
  The items the parsing loop produces are empty strings or non-blank lines that are no
  header; a parsed project has a header line, such items, no blank item at its end and no
  line break inside a line. \<open>closed\<close> is the project list once the current project is
  pushed, \<open>content\<close> the part of a project that the rebuilt text shows.
\<close>

definition itemOK :: "string \<Rightarrow> bool" where
  "itemOK a \<longleftrightarrow> a = [] \<or> (trim a \<noteq> [] \<and> \<not> isProjectHeader (trim a))"

definition projectOK :: "project \<Rightarrow> bool" where
  "projectOK p \<longleftrightarrow>
     isProjectHeader (trim (header p)) \<and> (\<forall>a\<in>set (items p). itemOK a) \<and>
     (items p = [] \<or> trim (last (items p)) \<noteq> []) \<and>
     LF \<notin> set (header p) \<and> (\<forall>a\<in>set (items p). LF \<notin> set a)"

definition closed :: "project list \<times> project option \<Rightarrow> project list" where
  "closed st = (case st of (projects, Some p) \<Rightarrow> projects @ [p] | (projects, None) \<Rightarrow> projects)"

definition content :: "project \<Rightarrow> string \<times> string list" where
  "content p = (header p, items p)"

section \<open>Project headers\<close>


lemma endsWith_colon: "endsWith s '':'' \<longleftrightarrow> s \<noteq> [] \<and> last s = CHR '':''"
proof (cases s rule: rev_cases)
  case Nil then show ?thesis by (simp add: endsWith_def)
next
  case (snoc ys y) then show ?thesis by (auto simp: endsWith_def)
qed

lemma isProjectHeader_iff: "isProjectHeader s \<longleftrightarrow> length s > 1 \<and> last s = CHR '':''"
  by (auto simp: isProjectHeader_def endsWith_colon)

lemma decorateLoop_projectRanges:
  "set (projectRanges (decorateLoop ls i b d)) =
     set (projectRanges d) \<union> {i + k | k. k < length ls \<and> isProjectHeader (trim (ls ! k))}"
proof (induction ls arbitrary: i b d)
  case Nil then show ?case by simp
next
  case (Cons l ls)
  have split: "{i + k | k. k < length (l # ls) \<and> isProjectHeader (trim ((l # ls) ! k))}
      = (if isProjectHeader (trim l) then {i} else {}) \<union>
        {Suc i + k | k. k < length ls \<and> isProjectHeader (trim (ls ! k))}"
    apply (auto simp: less_Suc_eq_0_disj)
    done
  show ?case
    unfolding split
    by (simp add: Cons.IH Let_def)
qed

lemma header_x_colon: "projectRanges (updateDecorations ''x:'') = [0]"
  by (simp add: updateDecorations_def LF_def trim_def isSpace_def endsWith_def
      isProjectHeader_def)

lemma header_colon_alone: "projectRanges (updateDecorations '':'') = []"
  by (simp add: updateDecorations_def LF_def trim_def isSpace_def endsWith_def
      isProjectHeader_def)

text \<open>
  Claim C8. A line of the document is classified as a project header (its range is put
  into \<^verbatim>\<open>projectRanges\<close>) exactly when its trimmed text is longer than one character and
  ends with a colon. The one-line document \<^verbatim>\<open>x:\<close> has its line classified as a header,
  the one-line document \<^verbatim>\<open>:\<close> has not.
\<close>

theorem project_header_classification:
  "(k \<in> set (projectRanges (updateDecorations documentText)) \<longleftrightarrow>
      k < length (splitLines documentText) \<and>
      length (trim (splitLines documentText ! k)) > 1 \<and>
      last (trim (splitLines documentText ! k)) = CHR '':'') \<and>
   projectRanges (updateDecorations ''x:'') = [0] \<and>
   projectRanges (updateDecorations '':'') = []"
  using header_x_colon header_colon_alone
  by (auto simp: updateDecorations_def decorateLoop_projectRanges isProjectHeader_iff)

section \<open>Colour assignment\<close>


lemma placeOf_append_in: "c \<in> set ks \<Longrightarrow> placeOf c (ks @ xs) = placeOf c ks"
  by (induction ks) (auto simp: placeOf_def)

lemma placeOf_fresh: "c \<notin> set ks \<Longrightarrow> placeOf c (ks @ [c]) = length ks"
  by (induction ks) (auto simp: placeOf_def)

lemma map_of_place:
  "map_of (map (\<lambda>k. (k, f k)) ks) c = (if c \<in> set ks then Some (f c) else None)"
  by (induction ks) auto

lemma mapHas_keys: "mapHas m k \<longleftrightarrow> k \<in> set (map fst m)"
  by (simp add: mapHas_def map_of_eq_None_iff)

lemma colorFor_step:
  assumes "colorInv ks st"
  shows "fst (colorFor c st) = Some (placeOf c (seenAfter ks c) mod length CONTEXT_COLORS)"
    and "colorInv (seenAfter ks c) (snd (colorFor c st))"
proof -
  from assms have ccm: "contextColorMap st = map (\<lambda>k. (k, placeOf k ks mod length CONTEXT_COLORS)) ks"
    and dt: "map fst (decorationTypes st) = ks" and dist: "distinct ks"
    by (simp_all add: colorInv_def)
  show "fst (colorFor c st) = Some (placeOf c (seenAfter ks c) mod length CONTEXT_COLORS)"
  proof (cases "c \<in> set ks")
    case True
    then show ?thesis
      by (simp add: colorFor_def getContextDecorationType_def mapHas_keys dt seenAfter_def
          mapGet_def ccm map_of_place)
  next
    case False
    then have nh: "\<not> mapHas (contextColorMap st) c" by (simp add: mapHas_keys ccm comp_def)
    from False show ?thesis
      by (simp add: colorFor_def getContextDecorationType_def mapHas_keys dt seenAfter_def
          mapGet_def ccm map_of_place mapSet_def mapSize_def comp_def placeOf_fresh Let_def
          map_add_def)
  qed
  show "colorInv (seenAfter ks c) (snd (colorFor c st))"
  proof (cases "c \<in> set ks")
    case True
    then show ?thesis using assms
      by (simp add: colorFor_def getContextDecorationType_def mapHas_keys dt seenAfter_def)
  next
    case False
    then show ?thesis using dist
      by (simp add: colorFor_def getContextDecorationType_def mapHas_keys dt seenAfter_def
          mapGet_def ccm map_of_place mapSet_def mapSize_def comp_def placeOf_fresh Let_def
          colorInv_def placeOf_append_in map_add_def)
  qed
qed

lemma firstSeen_snoc: "firstSeen (cs @ [c]) = seenAfter (firstSeen cs) c"
  by (simp add: firstSeen_def seenAfter_def)

lemma set_firstSeen: "set (firstSeen cs) = set cs"
  by (simp add: firstSeen_def)


lemma fold_seenAfter_extends: "\<exists>xs. fold (\<lambda>c ks. seenAfter ks c) cs ks = ks @ xs"
proof (induction cs arbitrary: ks)
  case Nil then show ?case by simp
next
  case (Cons c cs)
  obtain xs where "fold (\<lambda>c ks. seenAfter ks c) cs (seenAfter ks c) = seenAfter ks c @ xs"
    using Cons.IH by blast
  then show ?case by (auto simp: seenAfter_def)
qed

lemma placeOf_fold_seenAfter:
  "c \<in> set ks \<Longrightarrow> placeOf c (fold (\<lambda>c ks. seenAfter ks c) cs ks) = placeOf c ks"
  using fold_seenAfter_extends [of cs ks] by (auto simp: placeOf_append_in)

lemma colorsFor_general:
  "colorInv ks st \<Longrightarrow>
     colorsFor cs st =
       map (\<lambda>c. Some (placeOf c (fold (\<lambda>c ks. seenAfter ks c) cs ks) mod length CONTEXT_COLORS)) cs"
proof (induction cs arbitrary: ks st)
  case Nil then show ?case by simp
next
  case (Cons c cs)
  let ?ks = "seenAfter ks c"
  let ?all = "fold (\<lambda>c ks. seenAfter ks c) cs ?ks"
  have mem: "c \<in> set ?ks" by (simp add: seenAfter_def)
  have head: "fst (colorFor c st) = Some (placeOf c ?all mod length CONTEXT_COLORS)"
    using colorFor_step(1) [OF Cons.prems, of c] placeOf_fold_seenAfter [OF mem, of cs] by simp
  have tail: "colorsFor cs (snd (colorFor c st)) =
      map (\<lambda>c. Some (placeOf c ?all mod length CONTEXT_COLORS)) cs"
    using Cons.IH [OF colorFor_step(2) [OF Cons.prems, of c]] .
  show ?case using head tail by simp
qed

lemma firstSeen_fold: "firstSeen cs = fold (\<lambda>c ks. seenAfter ks c) cs []"
  by (induction cs rule: rev_induct) (simp_all add: firstSeen_snoc, simp add: firstSeen_def)

lemma colorInv_initial: "colorInv [] initialState"
  by (simp add: colorInv_def initialState_def)

text \<open>
  Claim C9. Starting from empty maps, every call for a context yields the place of that
  context in the order of first appearance (counted from 0), modulo the size of the
  palette. A context that is asked for again therefore gets the index it got before.
\<close>

theorem color_assignment_first_seen:
  "colorsFor cs initialState =
     map (\<lambda>c. Some (placeOf c (firstSeen cs) mod length CONTEXT_COLORS)) cs"
  using colorsFor_general [OF colorInv_initial, of cs] by (simp add: firstSeen_fold)

section \<open>Folding ranges cover sections\<close>

lemma lastNonEmpty_props:
  "p \<le> start \<Longrightarrow>
     p \<le> lastNonEmpty ls p start \<and> lastNonEmpty ls p start \<le> start \<and>
     (p < lastNonEmpty ls p start \<longrightarrow> \<not> blankAt ls (lastNonEmpty ls p start)) \<and>
     (\<forall>k. lastNonEmpty ls p start < k \<and> k \<le> start \<longrightarrow> blankAt ls k)"
proof (induction start)
  case 0 then show ?case by simp
next
  case (Suc e)
  show ?case
  proof (cases "Suc e > p \<and> trim (ls ! Suc e) = []")
    case True
    then have "p \<le> e" by simp
    from Suc.IH [OF this] True show ?thesis
      by (auto simp: blankAt_def le_Suc_eq)
  next
    case False
    then show ?thesis using Suc.prems by (auto simp: blankAt_def)
  qed
qed

lemma lastNonEmpty_unique:
  assumes "p < e" "e \<le> start" "\<not> blankAt ls e" "\<forall>k. e < k \<and> k \<le> start \<longrightarrow> blankAt ls k"
  shows "lastNonEmpty ls p start = e"
proof -
  let ?r = "lastNonEmpty ls p start"
  have ps: "p \<le> start" using assms by simp
  note P = lastNonEmpty_props [OF ps, of ls]
  have "\<not> ?r < e" using P assms by blast
  moreover have "\<not> e < ?r"
  proof
    assume "e < ?r"
    then have "p < ?r" "?r \<le> start" using assms P by auto
    then show False using P assms \<open>e < ?r\<close> by blast
  qed
  ultimately show ?thesis by simp
qed

lemma set_closeProject:
  "(s, e) \<in> set (closeProject ls p start ranges) \<longleftrightarrow>
     (s, e) \<in> set ranges \<or> (s = p \<and> e = lastNonEmpty ls p start \<and> p < e)"
  by (auto simp: closeProject_def Let_def)


lemma section_end:
  assumes hp: "headerAt ls p" and pi: "p < i"
    and gap: "\<forall>k. p < k \<and> k < i \<longrightarrow> \<not> headerAt ls k"
    and il: "i \<le> length ls" and stop: "i = length ls \<or> headerAt ls i"
  shows "(s = p \<and> e = lastNonEmpty ls p (i - 1) \<and> p < e) \<longleftrightarrow>
         (foldsSection ls s e \<and> p \<le> s \<and> s < i)"
proof
  assume L: "s = p \<and> e = lastNonEmpty ls p (i - 1) \<and> p < e"
  have pst: "p \<le> i - 1" using pi by simp
  note P = lastNonEmpty_props [OF pst, of ls]
  from L P have e1: "e \<le> i - 1" and nb: "\<not> blankAt ls e"
    and bl: "\<forall>k. e < k \<and> k \<le> i - 1 \<longrightarrow> blankAt ls k" by auto
  have ei: "e < i" using e1 pi by simp
  have "\<forall>k. p < k \<and> k \<le> e \<longrightarrow> \<not> headerAt ls k" using gap ei by simp
  moreover have "\<forall>k. e < k \<and> k < length ls \<and> (\<forall>j. e < j \<and> j \<le> k \<longrightarrow> \<not> headerAt ls j) \<longrightarrow> blankAt ls k"
  proof (intro allI impI)
    fix k assume k: "e < k \<and> k < length ls \<and> (\<forall>j. e < j \<and> j \<le> k \<longrightarrow> \<not> headerAt ls j)"
    have "k < i"
    proof (rule ccontr)
      assume "\<not> k < i"
      then have "i \<le> k" by simp
      with k il have "i \<noteq> length ls" by simp
      with stop have "headerAt ls i" by simp
      moreover have "\<not> headerAt ls i" using k ei \<open>i \<le> k\<close> by simp
      ultimately show False by simp
    qed
    then show "blankAt ls k" using bl k by simp
  qed
  ultimately show "foldsSection ls s e \<and> p \<le> s \<and> s < i"
    using L hp pi ei il nb by (simp add: foldsSection_def)
next
  assume R: "foldsSection ls s e \<and> p \<le> s \<and> s < i"
  then have hs: "headerAt ls s" and se: "s < e" and en: "e < length ls"
    and nb: "\<not> blankAt ls e"
    and nh: "\<forall>k. s < k \<and> k \<le> e \<longrightarrow> \<not> headerAt ls k"
    and tl: "\<forall>k. e < k \<and> k < length ls \<and> (\<forall>j. e < j \<and> j \<le> k \<longrightarrow> \<not> headerAt ls j) \<longrightarrow> blankAt ls k"
    by (simp_all add: foldsSection_def)
  have sp: "s = p"
  proof (rule ccontr)
    assume "s \<noteq> p"
    with R have "p < s \<and> s < i" by simp
    with gap hs show False by simp
  qed
  have ei: "e < i"
  proof (rule ccontr)
    assume "\<not> e < i"
    then have ie: "i \<le> e" by simp
    with en have "i \<noteq> length ls" by simp
    with stop have "headerAt ls i" by simp
    moreover have "s < i" using R by simp
    ultimately show False using nh ie by simp
  qed
  have blank: "\<forall>k. e < k \<and> k \<le> i - 1 \<longrightarrow> blankAt ls k"
  proof (intro allI impI)
    fix k assume k: "e < k \<and> k \<le> i - 1"
    then have ki: "k < i" using pi by arith
    have "\<forall>j. e < j \<and> j \<le> k \<longrightarrow> \<not> headerAt ls j"
      using gap ki se sp by simp
    then show "blankAt ls k" using tl k ki il by simp
  qed
  have "lastNonEmpty ls p (i - 1) = e"
    by (rule lastNonEmpty_unique) (use se sp ei nb blank in simp_all)
  then show "s = p \<and> e = lastNonEmpty ls p (i - 1) \<and> p < e"
    using sp se by simp
qed


lemma foldInv_step:
  assumes inv: "foldInv ls i st" and il: "i < length ls"
  shows "foldInv ls (Suc i) (foldingStep ls i st)"
proof -
  obtain ps ranges where st: "st = (ps, ranges)" by (cases st)
  from inv st have mem: "\<And>s e. (s, e) \<in> set ranges \<longleftrightarrow>
      foldsSection ls s e \<and> (\<exists>h. e < h \<and> h < i \<and> headerAt ls h)"
    and srt: "sorted_wrt (<) (map fst ranges)"
    by (simp_all add: foldInv_def)
  show ?thesis
  proof (cases "headerAt ls i")
    case False
    have ex: "\<And>e. (\<exists>h. e < h \<and> h < Suc i \<and> headerAt ls h) \<longleftrightarrow> (\<exists>h. e < h \<and> h < i \<and> headerAt ls h)"
      using False less_Suc_eq by auto
    have "(case ps of None \<Rightarrow> (\<forall>k<Suc i. \<not> headerAt ls k)
         | Some p \<Rightarrow> p < Suc i \<and> headerAt ls p \<and> (\<forall>k. p < k \<and> k < Suc i \<longrightarrow> \<not> headerAt ls k))"
      using inv st False by (auto simp: foldInv_def less_Suc_eq split: option.splits)
    moreover have "foldingStep ls i st = st"
      using False st by (simp add: foldingStep_def headerAt_def)
    ultimately show ?thesis using st mem srt ex
      by (simp add: foldInv_def)
  next
    case True
    show ?thesis
    proof (cases ps)
      case None
      with inv st have nohdr: "\<forall>k<i. \<not> headerAt ls k" by (simp add: foldInv_def)
      have "\<And>s e. foldsSection ls s e \<and> (\<exists>h. e < h \<and> h < Suc i \<and> headerAt ls h) \<longleftrightarrow> False"
      proof -
        fix s e 
        show "foldsSection ls s e \<and> (\<exists>h. e < h \<and> h < Suc i \<and> headerAt ls h) \<longleftrightarrow> False"
        proof (auto)
          fix h assume fs: "foldsSection ls s e" and h: "e < h" "h < Suc i" "headerAt ls h"
          from fs have "headerAt ls s" "s < e" by (simp_all add: foldsSection_def)
          with h nohdr show False by (metis less_Suc_eq less_trans)
        qed
      qed
      moreover have "\<And>s e. (s, e) \<notin> set ranges" using mem nohdr by blast
      moreover have step: "foldingStep ls i st = (Some i, ranges)"
        using True st None by (simp add: foldingStep_def headerAt_def)
      moreover have "\<forall>k. i < k \<and> k < Suc i \<longrightarrow> \<not> headerAt ls k" by auto
      ultimately show ?thesis using True srt
        by (simp add: foldInv_def)
    next
      case (Some p)
      with inv st have hp: "headerAt ls p" and pi: "p < i"
        and gap: "\<forall>k. p < k \<and> k < i \<longrightarrow> \<not> headerAt ls k"
        by (simp_all add: foldInv_def)
      have il': "i \<le> length ls" using il by simp
      note SE = section_end [OF hp pi gap il', of]
      have step: "foldingStep ls i st = (Some i, closeProject ls p (i - 1) ranges)"
        using True st Some by (simp add: foldingStep_def headerAt_def)
      have memb: "\<And>s e. (s, e) \<in> set (closeProject ls p (i - 1) ranges) \<longleftrightarrow>
          foldsSection ls s e \<and> (\<exists>h. e < h \<and> h < Suc i \<and> headerAt ls h)"
      proof -
        fix s e
        have a: "(s, e) \<in> set (closeProject ls p (i - 1) ranges) \<longleftrightarrow>
            (foldsSection ls s e \<and> (\<exists>h. e < h \<and> h < i \<and> headerAt ls h)) \<or>
            (foldsSection ls s e \<and> p \<le> s \<and> s < i)"
          using SE [of s e] True mem [of s e] by (simp add: set_closeProject)
        have b: "foldsSection ls s e \<and> (\<exists>h. e < h \<and> h < Suc i \<and> headerAt ls h) \<longleftrightarrow>
            (foldsSection ls s e \<and> (\<exists>h. e < h \<and> h < i \<and> headerAt ls h)) \<or>
            (foldsSection ls s e \<and> p \<le> s \<and> s < i)"
        proof (cases "foldsSection ls s e")
          case False then show ?thesis by simp
        next
          case fs: True
          then have hs: "headerAt ls s" and se: "s < e"
            and nh: "\<forall>k. s < k \<and> k \<le> e \<longrightarrow> \<not> headerAt ls k"
            by (simp_all add: foldsSection_def)
          show ?thesis
          proof (cases "\<exists>h. e < h \<and> h < i \<and> headerAt ls h")
            case True then show ?thesis using fs less_Suc_eq by auto
          next
            case noh: False
            have "(\<exists>h. e < h \<and> h < Suc i \<and> headerAt ls h) \<longleftrightarrow> e < i"
              using noh True less_Suc_eq by auto
            moreover have "e < i \<longleftrightarrow> p \<le> s \<and> s < i"
            proof
              assume ei: "e < i"
              have "\<not> s < p"
              proof
                assume sp: "s < p"
                show False
                proof (cases "p \<le> e")
                  case True with sp nh hp show ?thesis by simp
                next
                  case False with noh hp pi show ?thesis by auto
                qed
              qed
              then show "p \<le> s \<and> s < i" using se ei by simp
            next
              assume ps: "p \<le> s \<and> s < i"
              show "e < i"
              proof (rule ccontr)
                assume "\<not> e < i"
                then have "i \<le> e" by simp
                with ps nh True show False by simp
              qed
            qed
            ultimately show ?thesis using fs noh by blast
          qed
        qed
        show "(s, e) \<in> set (closeProject ls p (i - 1) ranges) \<longleftrightarrow>
          foldsSection ls s e \<and> (\<exists>h. e < h \<and> h < Suc i \<and> headerAt ls h)"
          using a b by simp
      qed
      have before: "\<forall>x \<in> set ranges. fst x < p"
      proof
        fix x assume x: "x \<in> set ranges"
        obtain s e where xe: "x = (s, e)" by (cases x)
        with x mem [of s e] obtain h where fs: "foldsSection ls s e" and h: "e < h" "h < i" "headerAt ls h"
          by auto
        have "h \<le> p" using gap h by (meson not_le_imp_less)
        moreover have "s < e" using fs by (simp add: foldsSection_def)
        ultimately show "fst x < p" using h xe by simp
      qed
      have srt': "sorted_wrt (<) (map fst (closeProject ls p (i - 1) ranges))"
        using srt before by (auto simp: closeProject_def Let_def sorted_wrt_append)
      have "\<forall>k. i < k \<and> k < Suc i \<longrightarrow> \<not> headerAt ls k" by auto
      then show ?thesis
        unfolding step using True memb srt' by (simp add: foldInv_def)
    qed
  qed
qed


lemma foldInv_loop:
  "i \<le> length ls \<Longrightarrow> foldInv ls i (fold (foldingStep ls) [0..<i] (None, []))"
proof (induction i)
  case 0 then show ?case by (simp add: foldInv_def)
next
  case (Suc i)
  then have "foldInv ls i (fold (foldingStep ls) [0..<i] (None, []))" and "i < length ls"
    by simp_all
  from foldInv_step [OF this] show ?case by simp
qed

lemma folding_final:
  assumes inv: "foldInv ls (length ls) (ps, ranges)"
  shows "((s, e) \<in> set (case ps of Some p \<Rightarrow> closeProject ls p (length ls - 1) ranges
                                   | None \<Rightarrow> ranges) \<longleftrightarrow> foldsSection ls s e) \<and>
         sorted_wrt (<) (map fst (case ps of Some p \<Rightarrow> closeProject ls p (length ls - 1) ranges
                                   | None \<Rightarrow> ranges))"
proof -
  from inv have mem: "\<And>s e. (s, e) \<in> set ranges \<longleftrightarrow>
      foldsSection ls s e \<and> (\<exists>h. e < h \<and> h < length ls \<and> headerAt ls h)"
    and srt: "sorted_wrt (<) (map fst ranges)"
    by (simp_all add: foldInv_def)
  show ?thesis
  proof (cases ps)
    case None
    with inv have nohdr: "\<forall>k<length ls. \<not> headerAt ls k" by (simp add: foldInv_def)
    have "\<not> foldsSection ls s e"
    proof
      assume "foldsSection ls s e"
      then have "headerAt ls s" "s < length ls" by (simp_all add: foldsSection_def)
      with nohdr show False by simp
    qed
    then show ?thesis using None mem [of s e] srt by simp
  next
    case (Some p)
    with inv have hp: "headerAt ls p" and pi: "p < length ls"
      and gap: "\<forall>k. p < k \<and> k < length ls \<longrightarrow> \<not> headerAt ls k"
      by (simp_all add: foldInv_def)
    note SE = section_end [OF hp pi gap le_refl, of s e]
    have a: "(s, e) \<in> set (closeProject ls p (length ls - 1) ranges) \<longleftrightarrow>
        (foldsSection ls s e \<and> (\<exists>h. e < h \<and> h < length ls \<and> headerAt ls h)) \<or>
        (foldsSection ls s e \<and> p \<le> s \<and> s < length ls)"
      using SE mem [of s e] by (simp add: set_closeProject)
    have b: "foldsSection ls s e \<Longrightarrow> \<not> (\<exists>h. e < h \<and> h < length ls \<and> headerAt ls h)
        \<Longrightarrow> p \<le> s \<and> s < length ls"
    proof -
      assume fs: "foldsSection ls s e" and noh: "\<not> (\<exists>h. e < h \<and> h < length ls \<and> headerAt ls h)"
      from fs have se: "s < e" and en: "e < length ls"
        and nh: "\<forall>k. s < k \<and> k \<le> e \<longrightarrow> \<not> headerAt ls k"
        by (simp_all add: foldsSection_def)
      have "\<not> s < p"
      proof
        assume sp: "s < p"
        show False
        proof (cases "p \<le> e")
          case True with sp nh hp show ?thesis by simp
        next
          case False with noh hp pi show ?thesis by auto
        qed
      qed
      then show ?thesis using se en by simp
    qed
    have memb: "(s, e) \<in> set (closeProject ls p (length ls - 1) ranges) \<longleftrightarrow> foldsSection ls s e"
      using a b by blast
    have before: "\<forall>x \<in> set ranges. fst x < p"
    proof
      fix x assume x: "x \<in> set ranges"
      obtain s' e' where xe: "x = (s', e')" by (cases x)
      with x mem [of s' e'] obtain h where fs: "foldsSection ls s' e'"
        and h: "e' < h" "h < length ls" "headerAt ls h"
        by auto
      have "h \<le> p" using gap h by (meson not_le_imp_less)
      moreover have "s' < e'" using fs by (simp add: foldsSection_def)
      ultimately show "fst x < p" using h xe by simp
    qed
    have srt': "sorted_wrt (<) (map fst (closeProject ls p (length ls - 1) ranges))"
      using srt before by (auto simp: closeProject_def Let_def sorted_wrt_append)
    show ?thesis using Some memb srt' by simp
  qed
qed

text \<open>
  Claim C7. The folding ranges are exactly the pairs of a header line and the last
  non-blank line of its section, for the sections whose body is not all blank, one per
  section in ascending order. A range never ends on a blank line, and a section with a
  blank body has no range.
\<close>

theorem folding_ranges_sections:

  "((s, e) \<in> set (provideFoldingRanges documentText) \<longleftrightarrow>
      foldsSection (splitLines documentText) s e) \<and>
   sorted_wrt (<) (map fst (provideFoldingRanges documentText))"
proof -
  let ?ls = "splitLines documentText"
  obtain ps ranges where f: "fold (foldingStep ?ls) [0..<length ?ls] (None, []) = (ps, ranges)"
    by (cases "fold (foldingStep ?ls) [0..<length ?ls] (None, [])")
  have inv: "foldInv ?ls (length ?ls) (ps, ranges)"
    using foldInv_loop [of "length ?ls" ?ls] f by simp
  have "provideFoldingRanges documentText =
      (case ps of Some p \<Rightarrow> closeProject ?ls p (length ?ls - 1) ranges | None \<Rightarrow> ranges)"
    by (simp add: provideFoldingRanges_def Let_def f split: option.splits)
  then show ?thesis using folding_final [OF inv, of s e] by simp
qed


theorem folding_ranges_sections_witness:
  "foldsSection (splitLines ''pre\<newline>A:\<newline>x\<newline>\<newline>y\<newline>\<newline>B:\<newline>\<newline>Done:\<newline>z\<newline>'') 1 4 \<and>
   (1, 4) \<in> set (provideFoldingRanges ''pre\<newline>A:\<newline>x\<newline>\<newline>y\<newline>\<newline>B:\<newline>\<newline>Done:\<newline>z\<newline>'')"
proof -
  have m: "(1, 4) \<in> set (provideFoldingRanges ''pre\<newline>A:\<newline>x\<newline>\<newline>y\<newline>\<newline>B:\<newline>\<newline>Done:\<newline>z\<newline>'')"
    by code_simp
  with folding_ranges_sections [of 1 4 "''pre\<newline>A:\<newline>x\<newline>\<newline>y\<newline>\<newline>B:\<newline>\<newline>Done:\<newline>z\<newline>''"]
  show ?thesis by simp
qed

section \<open>Texts, lines and offsets\<close>

lemma splitLines_nonempty [simp]: "splitLines text \<noteq> []"
  by (induction "text") (auto split: list.splits)

lemma joinLines_Cons: "ls \<noteq> [] \<Longrightarrow> joinLines (l # ls) = l @ LF # joinLines ls"
  by (cases ls) simp_all

lemma joinLines_splitLines: "joinLines (splitLines text) = text"
proof (induction "text")
  case Nil show ?case by simp
next
  case (Cons c cs)
  show ?case
  proof (cases "c = LF")
    case True
    then show ?thesis using Cons.IH by (simp add: joinLines_Cons)
  next
    case False
    obtain l ls where sp: "splitLines cs = l # ls"
      using splitLines_nonempty [of cs] by (cases "splitLines cs") auto
    have "joinLines ((c # l) # ls) = c # joinLines (l # ls)"
      by (cases ls) simp_all
    then show ?thesis using False Cons.IH sp by simp
  qed
qed

lemma splitLines_no_LF: "l \<in> set (splitLines text) \<Longrightarrow> LF \<notin> set l"
proof (induction "text" arbitrary: l)
  case Nil then show ?case by simp
next
  case (Cons c cs)
  then show ?case
    by (cases "splitLines cs") (auto split: if_splits)
qed

lemma joinLines_take_drop:
  "k < length ls \<Longrightarrow> joinLines ls = linesWithBreaks (take k ls) @ joinLines (drop k ls)"
proof (induction k arbitrary: ls)
  case 0 then show ?case by (simp add: linesWithBreaks_def)
next
  case (Suc k)
  then obtain l rest where ls: "ls = l # rest" by (cases ls) auto
  with Suc.prems have k: "k < length rest" by simp
  then have "rest \<noteq> []" by auto
  then show ?case using Suc.IH [OF k] ls
    by (simp add: joinLines_Cons linesWithBreaks_def)
qed

lemma lineStart_length: "lineStart ls k = length (linesWithBreaks (take k ls))"
  by (simp add: lineStart_def linesWithBreaks_def length_concat comp_def)

lemma take_lineStart:
  "k < length ls \<Longrightarrow> take (lineStart ls k) (joinLines ls) = linesWithBreaks (take k ls)"
  using joinLines_take_drop [of k ls] by (simp add: lineStart_length)

lemma drop_lineStart:
  "k < length ls \<Longrightarrow> drop (lineStart ls k) (joinLines ls) = joinLines (drop k ls)"
  using joinLines_take_drop [of k ls] by (simp add: lineStart_length)

lemma offsetAt_line_start:
  "offsetAt ls (k, 0) = (if k < length ls then lineStart ls k else length (joinLines ls))"
  by (simp add: offsetAt_def)

lemma take_offsetAt_start:
  "take (offsetAt ls (k, 0)) (joinLines ls) =
     (if k < length ls then linesWithBreaks (take k ls) else joinLines ls)"
  by (simp add: offsetAt_line_start take_lineStart)

lemma drop_offsetAt_start:
  "drop (offsetAt ls (k, 0)) (joinLines ls) = joinLines (drop k ls)"
  by (simp add: offsetAt_line_start drop_lineStart)



section \<open>Archive: the block and the remaining text\<close>

lemma findDone_none:
  "fst (findDone ls is ds) = None \<longleftrightarrow> ds = None \<and> (\<forall>i\<in>set is. trim (ls ! i) \<noteq> ''Done:'')"
  by (induction "is" arbitrary: ds) (auto simp: Let_def)

lemma findDone_skip:
  "\<forall>i\<in>set pre. trim (ls ! i) \<noteq> ''Done:'' \<Longrightarrow>
     findDone ls (pre @ rest) None = findDone ls rest None"
  by (induction pre) (auto simp: Let_def)

lemma findDone_section:
  assumes "a \<le> length ls" and "\<forall>k. a \<le> k \<and> k < length ls \<longrightarrow> trim (ls ! k) \<noteq> ''Done:''"
  shows "findDone ls [a..<length ls] (Some s) =
     (Some s,
      if a + length (takeWhile (\<lambda>l. \<not> isProjectHeader (trim l)) (drop a ls)) < length ls
      then Some (a + length (takeWhile (\<lambda>l. \<not> isProjectHeader (trim l)) (drop a ls)) - 1)
      else None)"
  using assms
proof (induction "length ls - a" arbitrary: a)
  case 0
  then show ?case by simp
next
  case (Suc d)
  then have al: "a < length ls" by simp
  have upt: "[a..<length ls] = a # [Suc a..<length ls]" using al by (simp add: upt_conv_Cons)
  have dr: "drop a ls = ls ! a # drop (Suc a) ls" using al by (simp add: Cons_nth_drop_Suc)
  have nd: "trim (ls ! a) \<noteq> ''Done:''" using Suc.prems al by simp
  show ?case
  proof (cases "isProjectHeader (trim (ls ! a))")
    case True
    then show ?thesis using upt dr nd al by (simp add: Let_def)
  next
    case False
    have d: "d = length ls - Suc a" using Suc.hyps(2) by simp
    have IH: "findDone ls [Suc a..<length ls] (Some s) =
     (Some s,
      if Suc a + length (takeWhile (\<lambda>l. \<not> isProjectHeader (trim l)) (drop (Suc a) ls)) < length ls
      then Some (Suc a + length (takeWhile (\<lambda>l. \<not> isProjectHeader (trim l)) (drop (Suc a) ls)) - 1)
      else None)"
      by (rule Suc.hyps(1) [OF d]) (use al Suc.prems in auto)
    show ?thesis using False nd IH
      by (simp add: upt dr Let_def)
  qed
qed

lemma body_length: "Suc s + length (sectionBody ls s) \<le> length ls \<or> length ls \<le> s"
proof -
  have "length (sectionBody ls s) \<le> length (drop (Suc s) ls)"
    unfolding sectionBody_def by (rule length_takeWhile_le)
  then show ?thesis by auto
qed

lemma nth_upt_take_drop:
  "a + m \<le> length ls \<Longrightarrow> map (\<lambda>i. ls ! i) [a..<a + m] = take m (drop a ls)"
  by (rule nth_equalityI) simp_all

lemma body_as_nth:
  "s < length ls \<Longrightarrow>
     map (\<lambda>i. ls ! i) [Suc s..<Suc (s + length (sectionBody ls s))] = sectionBody ls s"
proof -
  assume sl: "s < length ls"
  let ?m = "length (sectionBody ls s)"
  have le: "Suc s + ?m \<le> length ls" using body_length [of s ls] sl by simp
  have "sectionBody ls s = take ?m (drop (Suc s) ls)"
    unfolding sectionBody_def by (metis takeWhile_eq_take)
  also have "\<dots> = map (\<lambda>i. ls ! i) [Suc s..<Suc s + ?m]"
    using nth_upt_take_drop [OF le] by simp
  finally show ?thesis by simp
qed

lemma archive_one_done:
  assumes sl: "s < length (splitLines t)" and ds: "trim (splitLines t ! s) = ''Done:''"
    and uniq: "\<forall>k < length (splitLines t). trim (splitLines t ! k) = ''Done:'' \<longrightarrow> k = s"
  shows "archive date t =
     (let body = sectionBody (splitLines t) s;
          doneItems = filter (\<lambda>l. trim l \<noteq> []) body
      in if doneItems = []
         then \<lparr>shown = NoItemsToArchive, appended = None, newText = t\<rparr>
         else \<lparr>shown = ArchivedItems (length doneItems),
               appended = Some ([LF] @ ''Archived '' @ date @ '':'' @ [LF]
                                    @ joinLines doneItems @ [LF]),
               newText = linesWithBreaks (take (Suc s) (splitLines t)) @
                         joinLines (drop (Suc s + length body) (splitLines t))\<rparr>)"
proof -
  let ?ls = "splitLines t"
  let ?m = "length (sectionBody ?ls s)"
  have upt: "[0..<length ?ls] = [0..<s] @ s # [Suc s..<length ?ls]"
    using sl by (metis le_add2 le_add_same_cancel2 less_imp_add_positive upt_add_eq_append upt_conv_Cons)
  have pre: "\<forall>i\<in>set [0..<s]. trim (?ls ! i) \<noteq> ''Done:''"
  proof
    fix i assume "i \<in> set [0..<s]"
    then have "i < length ?ls" "i \<noteq> s" using sl by simp_all
    with uniq show "trim (?ls ! i) \<noteq> ''Done:''" by blast
  qed
  have post: "\<forall>k. Suc s \<le> k \<and> k < length ?ls \<longrightarrow> trim (?ls ! k) \<noteq> ''Done:''"
  proof (intro allI impI)
    fix k assume "Suc s \<le> k \<and> k < length ?ls"
    then have "k < length ?ls" "k \<noteq> s" by simp_all
    with uniq show "trim (?ls ! k) \<noteq> ''Done:''" by blast
  qed
  have "findDone ?ls [0..<length ?ls] None = findDone ?ls (s # [Suc s..<length ?ls]) None"
    unfolding upt by (rule findDone_skip [OF pre])
  also have "\<dots> = findDone ?ls [Suc s..<length ?ls] (Some s)"
    using ds by (simp add: Let_def)
  also have "\<dots> = (Some s, if Suc s + ?m < length ?ls then Some (Suc s + ?m - 1) else None)"
    using findDone_section [of "Suc s" ?ls s] sl post by (simp add: sectionBody_def)
  finally have fd: "findDone ?ls [0..<length ?ls] None =
      (Some s, if Suc s + ?m < length ?ls then Some (s + ?m) else None)" by simp
  have le: "Suc s + ?m \<le> length ?ls" using body_length [of s ?ls] sl by simp
  have endl: "(case (if Suc s + ?m < length ?ls then Some (s + ?m) else None) of
      None \<Rightarrow> length ?ls - 1 | Some e \<Rightarrow> e) = s + ?m"
    using le by auto
  have items: "map (\<lambda>i. ?ls ! i) [Suc s..<Suc (s + ?m)] = sectionBody ?ls s"
    by (rule body_as_nth [OF sl])
  have joined: "joinLines ?ls = t" by (rule joinLines_splitLines)
  have nt: "replaceRange t (offsetAt ?ls (Suc s, 0)) (offsetAt ?ls (Suc (s + ?m), 0)) [] =
      (if Suc s < length ?ls then linesWithBreaks (take (Suc s) ?ls) else t) @
      joinLines (drop (Suc s + ?m) ?ls)"
    using take_offsetAt_start [of ?ls "Suc s"] drop_offsetAt_start [of ?ls "Suc (s + ?m)"]
    by (simp add: replaceRange_def joined)
  have nonempty: "filter (\<lambda>l. trim l \<noteq> []) (sectionBody ?ls s) \<noteq> [] \<Longrightarrow> Suc s < length ?ls"
  proof -
    assume "filter (\<lambda>l. trim l \<noteq> []) (sectionBody ?ls s) \<noteq> []"
    then have "sectionBody ?ls s \<noteq> []" by auto
    then have "0 < ?m" by (simp del: length_greater_0_conv add: length_greater_0_conv [symmetric])
    with le show ?thesis by arith
  qed
  show ?thesis
    unfolding archive_def Let_def fd prod.case option.case endl items nt
    using nonempty by auto
qed


lemma archive_no_done:
  assumes "\<forall>l\<in>set (splitLines t). trim l \<noteq> ''Done:''"
  shows "archive date t = \<lparr>shown = NoDoneSectionFound, appended = None, newText = t\<rparr>"
proof -
  let ?ls = "splitLines t"
  have "\<forall>i\<in>set [0..<length ?ls]. trim (?ls ! i) \<noteq> ''Done:''" using assms by simp
  then have "fst (findDone ?ls [0..<length ?ls] None) = None"
    by (simp add: findDone_none)
  then obtain e where "findDone ?ls [0..<length ?ls] None = (None, e)"
    by (cases "findDone ?ls [0..<length ?ls] None") simp
  then show ?thesis by (simp add: archive_def)
qed

text \<open>
  Claim C5, as amended. In a document with exactly one line whose trimmed text is
  \<^verbatim>\<open>Done:\<close>, and with a non-blank line in the body of that section, the archive block is
  a line break, \<^verbatim>\<open>Archived \<close>\<open>date\<close>\<^verbatim>\<open>:\<close>, a line break, the non-blank lines of the body in
  their order joined by line breaks, and a line break. The remaining text is the lines up
  to and including the header, each with its line break, followed by the text from the
  next header on: the header stays and every line of the body is gone.
\<close>

theorem archive_block_and_remaining:
  assumes "s < length (splitLines t)" and "trim (splitLines t ! s) = ''Done:''"
    and "\<forall>k < length (splitLines t). trim (splitLines t ! k) = ''Done:'' \<longrightarrow> k = s"
    and "\<exists>l\<in>set (sectionBody (splitLines t) s). trim l \<noteq> []"
  shows "appended (archive date t) =
           Some ([LF] @ ''Archived '' @ date @ '':'' @ [LF]
                 @ joinLines (filter (\<lambda>l. trim l \<noteq> []) (sectionBody (splitLines t) s)) @ [LF]) \<and>
         newText (archive date t) =
           linesWithBreaks (take (Suc s) (splitLines t)) @
           joinLines (drop (Suc s + length (sectionBody (splitLines t) s)) (splitLines t))"
proof -
  have "filter (\<lambda>l. trim l \<noteq> []) (sectionBody (splitLines t) s) \<noteq> []"
    using assms(4) by (simp add: filter_empty_conv)
  then show ?thesis
    using archive_one_done [OF assms(1) assms(2) assms(3), of date] by (simp add: Let_def)
qed

theorem archive_block_and_remaining_witness:
  "2 < length (splitLines ''A:\<newline>x\<newline>Done:\<newline>item1\<newline>\<newline>item2\<newline>B:'') \<and>
   trim (splitLines ''A:\<newline>x\<newline>Done:\<newline>item1\<newline>\<newline>item2\<newline>B:'' ! 2) = ''Done:'' \<and>
   sectionBody (splitLines ''A:\<newline>x\<newline>Done:\<newline>item1\<newline>\<newline>item2\<newline>B:'') 2 = [''item1'', [], ''item2''] \<and>
   appended (archive ''2024-01-15'' ''A:\<newline>x\<newline>Done:\<newline>item1\<newline>\<newline>item2\<newline>B:'') =
     Some ''\<newline>Archived 2024-01-15:\<newline>item1\<newline>item2\<newline>'' \<and>
   newText (archive ''2024-01-15'' ''A:\<newline>x\<newline>Done:\<newline>item1\<newline>\<newline>item2\<newline>B:'') =
     ''A:\<newline>x\<newline>Done:\<newline>B:''"
proof -
  let ?t = "''A:\<newline>x\<newline>Done:\<newline>item1\<newline>\<newline>item2\<newline>B:''"
  have ls: "splitLines ?t = [''A:'', ''x'', ''Done:'', ''item1'', [], ''item2'', ''B:'']"
    by code_simp
  have h1: "2 < length (splitLines ?t)" unfolding ls by simp
  have h2: "trim (splitLines ?t ! 2) = ''Done:''" unfolding ls by code_simp
  have h3: "\<forall>k < length (splitLines ?t). trim (splitLines ?t ! k) = ''Done:'' \<longrightarrow> k = 2"
    unfolding ls by code_simp
  have body: "sectionBody (splitLines ?t) 2 = [''item1'', [], ''item2'']"
    unfolding ls by code_simp
  have h4: "\<exists>l\<in>set (sectionBody (splitLines ?t) 2). trim l \<noteq> []"
    unfolding body by code_simp
  have f: "filter (\<lambda>l. trim l \<noteq> []) [''item1'', [], ''item2''] = [''item1'', ''item2'']"
    by code_simp
  have r1: "[LF] @ ''Archived '' @ ''2024-01-15'' @ '':'' @ [LF]
      @ joinLines [''item1'', ''item2''] @ [LF] = ''\<newline>Archived 2024-01-15:\<newline>item1\<newline>item2\<newline>''"
    by code_simp
  have r2: "linesWithBreaks (take (Suc 2) [''A:'', ''x'', ''Done:'', ''item1'', [], ''item2'', ''B:'']) @
      joinLines (drop (Suc 2 + length [''item1'', [], ''item2''])
        [''A:'', ''x'', ''Done:'', ''item1'', [], ''item2'', ''B:'']) = ''A:\<newline>x\<newline>Done:\<newline>B:''"
    by code_simp
  note concl = archive_block_and_remaining [OF h1 h2 h3 h4, of "''2024-01-15''", unfolded body f r1, unfolded ls r2]
  show ?thesis
    using h1 h2 body concl by blast
qed

text \<open>The claim as it was stated fails when the document has a second \<^verbatim>\<open>Done:\<close> header:
  the first \<^verbatim>\<open>Done:\<close> section here has the item \<^verbatim>\<open>a\<close>, and nothing is archived.\<close>

theorem archive_second_done_header_counterexample:
  "trim (splitLines ''Done:\<newline>a\<newline>Done:'' ! 0) = ''Done:'' \<and>
   sectionBody (splitLines ''Done:\<newline>a\<newline>Done:'') 0 = [''a''] \<and>
   trim ''a'' \<noteq> [] \<and>
   archive ''2024-01-15'' ''Done:\<newline>a\<newline>Done:'' =
     \<lparr>shown = NoItemsToArchive, appended = None, newText = ''Done:\<newline>a\<newline>Done:''\<rparr>"
proof -
  have ls: "splitLines ''Done:\<newline>a\<newline>Done:'' = [''Done:'', ''a'', ''Done:'']"
    by code_simp
  have fd: "findDone [''Done:'', ''a'', ''Done:''] [0..<length [''Done:'', ''a'', ''Done:'']] None
      = (Some 2, None)"
    by code_simp
  have items: "filter (\<lambda>text. trim text \<noteq> [])
      (map (\<lambda>i. [''Done:'', ''a'', ''Done:''] ! i)
         [Suc 2..<Suc (length [''Done:'', ''a'', ''Done:''] - 1)]) = []"
    by code_simp
  have a: "archive ''2024-01-15'' ''Done:\<newline>a\<newline>Done:'' =
     \<lparr>shown = NoItemsToArchive, appended = None, newText = ''Done:\<newline>a\<newline>Done:''\<rparr>"
    unfolding archive_def ls Let_def fd prod.case option.case items by simp
  have h: "trim ([''Done:'', ''a'', ''Done:''] ! 0) = ''Done:''" by code_simp
  have b: "sectionBody [''Done:'', ''a'', ''Done:''] 0 = [''a'']" by code_simp
  have t: "trim ''a'' \<noteq> []" by code_simp
  show ?thesis unfolding ls using h b t a [unfolded ls] a by simp
qed

text \<open>With at most one \<^verbatim>\<open>Done:\<close> line the three parts hold together.\<close>

lemma archive_signals_one_done:
  assumes "\<forall>j k. j < length (splitLines t) \<and> k < length (splitLines t) \<and>
             trim (splitLines t ! j) = ''Done:'' \<and> trim (splitLines t ! k) = ''Done:''
             \<longrightarrow> j = k"
  shows "(shown (archive date t) = NoDoneSectionFound \<longleftrightarrow>
            (\<forall>l\<in>set (splitLines t). trim l \<noteq> ''Done:'')) \<and>
         (shown (archive date t) = NoItemsToArchive \<longleftrightarrow>
            (\<exists>s < length (splitLines t). trim (splitLines t ! s) = ''Done:'' \<and>
               (\<forall>l\<in>set (sectionBody (splitLines t) s). trim l = []))) \<and>
         (shown (archive date t) = NoDoneSectionFound \<or>
          shown (archive date t) = NoItemsToArchive \<longrightarrow>
            newText (archive date t) = t \<and> appended (archive date t) = None)"
proof (cases "\<forall>l\<in>set (splitLines t). trim l \<noteq> ''Done:''")
  case True
  have "\<not> (\<exists>s < length (splitLines t). trim (splitLines t ! s) = ''Done:'' \<and>
               (\<forall>l\<in>set (sectionBody (splitLines t) s). trim l = []))"
    using True by auto
  then show ?thesis using True archive_no_done [OF True, of date] by simp
next
  case False
  then obtain s where sl: "s < length (splitLines t)" and ds: "trim (splitLines t ! s) = ''Done:''"
    by (auto simp: in_set_conv_nth)
  have uniq: "\<forall>k < length (splitLines t). trim (splitLines t ! k) = ''Done:'' \<longrightarrow> k = s"
    using assms sl ds by blast
  let ?items = "filter (\<lambda>l. trim l \<noteq> []) (sectionBody (splitLines t) s)"
  note A = archive_one_done [OF sl ds uniq, of date, unfolded Let_def]
  have blank: "(\<exists>s' < length (splitLines t). trim (splitLines t ! s') = ''Done:'' \<and>
               (\<forall>l\<in>set (sectionBody (splitLines t) s'). trim l = [])) \<longleftrightarrow> ?items = []"
  proof
    assume "\<exists>s' < length (splitLines t). trim (splitLines t ! s') = ''Done:'' \<and>
               (\<forall>l\<in>set (sectionBody (splitLines t) s'). trim l = [])"
    then obtain s' where s': "s' < length (splitLines t)" "trim (splitLines t ! s') = ''Done:''"
      and b: "\<forall>l\<in>set (sectionBody (splitLines t) s'). trim l = []" by blast
    from s' uniq have "s' = s" by blast
    with b show "?items = []" by (simp add: filter_empty_conv)
  next
    assume "?items = []"
    then have "\<forall>l\<in>set (sectionBody (splitLines t) s). trim l = []"
      by (simp add: filter_empty_conv)
    with sl ds show "\<exists>s' < length (splitLines t). trim (splitLines t ! s') = ''Done:'' \<and>
               (\<forall>l\<in>set (sectionBody (splitLines t) s'). trim l = [])" by blast
  qed
  have some: "\<not> (\<forall>l\<in>set (splitLines t). trim l \<noteq> ''Done:'')" by (rule False)
  show ?thesis
  proof (cases "?items = []")
    case True
    then have "archive date t = \<lparr>shown = NoItemsToArchive, appended = None, newText = t\<rparr>"
      using A by simp
    then show ?thesis unfolding blank using some True by simp
  next
    case nonempty: False
    then have "shown (archive date t) = ArchivedItems (length ?items)"
      using A by simp
    then show ?thesis unfolding blank using some nonempty by simp
  qed
qed

text \<open>Two of the parts hold for every document.\<close>

lemma archive_no_done_iff:
  "shown (archive date t) = NoDoneSectionFound \<longleftrightarrow>
     (\<forall>l\<in>set (splitLines t). trim l \<noteq> ''Done:'')"
proof
  assume none: "\<forall>l\<in>set (splitLines t). trim l \<noteq> ''Done:''"
  show "shown (archive date t) = NoDoneSectionFound"
    using archive_no_done [OF none, of date] by simp
next
  assume sh: "shown (archive date t) = NoDoneSectionFound"
  let ?ls = "splitLines t"
  obtain ds de where fd: "findDone ?ls [0..<length ?ls] None = (ds, de)"
    by (cases "findDone ?ls [0..<length ?ls] None")
  have "ds = None"
  proof (cases ds)
    case None then show ?thesis .
  next
    case (Some s)
    then have "shown (archive date t) \<noteq> NoDoneSectionFound"
      by (simp add: archive_def fd Let_def)
    with sh show ?thesis by simp
  qed
  then have "fst (findDone ?ls [0..<length ?ls] None) = None" using fd by simp
  then have "\<forall>i\<in>set [0..<length ?ls]. trim (?ls ! i) \<noteq> ''Done:''"
    by (simp add: findDone_none)
  then show "\<forall>l\<in>set ?ls. trim l \<noteq> ''Done:''"
    by (auto simp: in_set_conv_nth)
qed

lemma archive_signal_unchanged:
  assumes "shown (archive date t) = NoDoneSectionFound \<or>
           shown (archive date t) = NoItemsToArchive"
  shows "newText (archive date t) = t \<and> appended (archive date t) = None"
proof -
  let ?ls = "splitLines t"
  obtain ds de where fd: "findDone ?ls [0..<length ?ls] None = (ds, de)"
    by (cases "findDone ?ls [0..<length ?ls] None")
  show ?thesis
  proof (cases ds)
    case None
    then show ?thesis by (simp add: archive_def fd)
  next
    case (Some s)
    let ?items = "filter (\<lambda>text. trim text \<noteq> [])
        (map (\<lambda>i. ?ls ! i) [Suc s..<Suc (case de of None \<Rightarrow> length ?ls - 1 | Some e \<Rightarrow> e)])"
    show ?thesis
    proof (cases "?items = []")
      case True
      then show ?thesis by (simp add: archive_def fd Some Let_def)
    next
      case False
      then have "shown (archive date t) = ArchivedItems (length ?items)"
        by (simp add: archive_def fd Some Let_def)
      with assms show ?thesis by simp
    qed
  qed
qed

text \<open>
  Claim C6, as amended. For every document the message is \<^verbatim>\<open>No Done section found\<close>
  exactly when no line trims to \<^verbatim>\<open>Done:\<close>, and with that message or with
  \<^verbatim>\<open>No items to archive\<close> the text is unchanged and nothing is appended to the archive.
  In a document with at most one line whose trimmed text is \<^verbatim>\<open>Done:\<close>, the message is
  \<^verbatim>\<open>No items to archive\<close> exactly when there is such a line and the body of its section
  has only blank lines.
\<close>

theorem archive_signals:
  "(shown (archive date t) = NoDoneSectionFound \<longleftrightarrow>
      (\<forall>l\<in>set (splitLines t). trim l \<noteq> ''Done:'')) \<and>
   (shown (archive date t) = NoDoneSectionFound \<or>
    shown (archive date t) = NoItemsToArchive \<longrightarrow>
      newText (archive date t) = t \<and> appended (archive date t) = None) \<and>
   ((\<forall>j k. j < length (splitLines t) \<and> k < length (splitLines t) \<and>
            trim (splitLines t ! j) = ''Done:'' \<and> trim (splitLines t ! k) = ''Done:''
            \<longrightarrow> j = k) \<longrightarrow>
    (shown (archive date t) = NoItemsToArchive \<longleftrightarrow>
       (\<exists>s < length (splitLines t). trim (splitLines t ! s) = ''Done:'' \<and>
          (\<forall>l\<in>set (sectionBody (splitLines t) s). trim l = []))))"
proof (intro conjI impI)
  show "shown (archive date t) = NoDoneSectionFound \<longleftrightarrow>
      (\<forall>l\<in>set (splitLines t). trim l \<noteq> ''Done:'')"
    by (rule archive_no_done_iff)
next
  assume "shown (archive date t) = NoDoneSectionFound \<or>
    shown (archive date t) = NoItemsToArchive"
  then show "newText (archive date t) = t" by (simp add: archive_signal_unchanged)
next
  assume "shown (archive date t) = NoDoneSectionFound \<or>
    shown (archive date t) = NoItemsToArchive"
  then show "appended (archive date t) = None" by (simp add: archive_signal_unchanged)
next
  assume "\<forall>j k. j < length (splitLines t) \<and> k < length (splitLines t) \<and>
            trim (splitLines t ! j) = ''Done:'' \<and> trim (splitLines t ! k) = ''Done:''
            \<longrightarrow> j = k"
  from archive_signals_one_done [OF this, of date]
  show "shown (archive date t) = NoItemsToArchive \<longleftrightarrow>
       (\<exists>s < length (splitLines t). trim (splitLines t ! s) = ''Done:'' \<and>
          (\<forall>l\<in>set (sectionBody (splitLines t) s). trim l = []))"
    by blast
qed

theorem archive_signals_witness:
  "shown (archive ''2024-01-15'' ''A:\<newline>x\<newline>Done:\<newline>\<newline>B:\<newline>y'') = NoItemsToArchive \<and>
   trim (splitLines ''A:\<newline>x\<newline>Done:\<newline>\<newline>B:\<newline>y'' ! 2) = ''Done:'' \<and>
   sectionBody (splitLines ''A:\<newline>x\<newline>Done:\<newline>\<newline>B:\<newline>y'') 2 = [[]] \<and>
   newText (archive ''2024-01-15'' ''A:\<newline>x\<newline>Done:\<newline>\<newline>B:\<newline>y'') = ''A:\<newline>x\<newline>Done:\<newline>\<newline>B:\<newline>y''"
proof -
  let ?t = "''A:\<newline>x\<newline>Done:\<newline>\<newline>B:\<newline>y''"
  have ls: "splitLines ?t = [''A:'', ''x'', ''Done:'', [], ''B:'', ''y'']"
    by code_simp
  have h: "\<forall>j k. j < length (splitLines ?t) \<and> k < length (splitLines ?t) \<and>
             trim (splitLines ?t ! j) = ''Done:'' \<and> trim (splitLines ?t ! k) = ''Done:''
             \<longrightarrow> j = k"
  proof -
    have "\<forall>j\<in>set [0..<6]. \<forall>k\<in>set [0..<6].
            trim ([''A:'', ''x'', ''Done:'', [], ''B:'', ''y''] ! j) = ''Done:'' \<and>
            trim ([''A:'', ''x'', ''Done:'', [], ''B:'', ''y''] ! k) = ''Done:'' \<longrightarrow> j = k"
      by code_simp
    then show ?thesis unfolding ls by simp
  qed
  have d: "trim (splitLines ?t ! 2) = ''Done:''" unfolding ls by code_simp
  have body: "sectionBody (splitLines ?t) 2 = [[]]" unfolding ls by code_simp
  have ex: "\<exists>s < length (splitLines ?t). trim (splitLines ?t ! s) = ''Done:'' \<and>
               (\<forall>l\<in>set (sectionBody (splitLines ?t) s). trim l = [])"
  proof (intro exI conjI)
    show "2 < length (splitLines ?t)" unfolding ls by simp
    show "trim (splitLines ?t ! 2) = ''Done:''" by (rule d)
    show "\<forall>l\<in>set (sectionBody (splitLines ?t) 2). trim l = []"
      unfolding body by code_simp
  qed
  from archive_signals [of "''2024-01-15''" ?t] h ex
  have "shown (archive ''2024-01-15'' ?t) = NoItemsToArchive \<and>
        newText (archive ''2024-01-15'' ?t) = ?t" by blast
  then show ?thesis using d body by blast
qed

text \<open>The claim as it was stated fails when the document has a second \<^verbatim>\<open>Done:\<close> header:
  here the first \<^verbatim>\<open>Done:\<close> section has only a blank line, and an item is archived.\<close>

theorem archive_blank_first_done_counterexample:
  "trim (splitLines ''Done:\<newline>\<newline>Done:\<newline>b'' ! 0) = ''Done:'' \<and>
   sectionBody (splitLines ''Done:\<newline>\<newline>Done:\<newline>b'') 0 = [[]] \<and>
   trim [] = [] \<and>
   shown (archive ''2024-01-15'' ''Done:\<newline>\<newline>Done:\<newline>b'') = ArchivedItems 1 \<and>
   appended (archive ''2024-01-15'' ''Done:\<newline>\<newline>Done:\<newline>b'') =
     Some ''\<newline>Archived 2024-01-15:\<newline>b\<newline>''"
proof -
  have ls: "splitLines ''Done:\<newline>\<newline>Done:\<newline>b'' = [''Done:'', [], ''Done:'', ''b'']"
    by code_simp
  have fd: "findDone [''Done:'', [], ''Done:'', ''b''] [0..<length [''Done:'', [], ''Done:'', ''b'']] None
      = (Some 2, None)"
    by code_simp
  have items: "filter (\<lambda>text. trim text \<noteq> [])
      (map (\<lambda>i. [''Done:'', [], ''Done:'', ''b''] ! i)
         [Suc 2..<Suc (length [''Done:'', [], ''Done:'', ''b''] - 1)]) = [''b'']"
    by code_simp
  have blk: "[LF] @ ''Archived '' @ ''2024-01-15'' @ '':'' @ [LF] @ joinLines [''b''] @ [LF]
      = ''\<newline>Archived 2024-01-15:\<newline>b\<newline>''"
    by code_simp
  have a: "shown (archive ''2024-01-15'' ''Done:\<newline>\<newline>Done:\<newline>b'') = ArchivedItems 1 \<and>
      appended (archive ''2024-01-15'' ''Done:\<newline>\<newline>Done:\<newline>b'') =
        Some ''\<newline>Archived 2024-01-15:\<newline>b\<newline>''"
    unfolding archive_def ls Let_def fd prod.case option.case items blk by simp
  have h: "trim ([''Done:'', [], ''Done:'', ''b''] ! 0) = ''Done:''" by code_simp
  have b: "sectionBody [''Done:'', [], ''Done:'', ''b''] 0 = [[]]" by code_simp
  have t: "trim [] = []" by code_simp
  show ?thesis unfolding ls using h b t a by simp
qed

section \<open>Sort by context: order and fixed point\<close>

lemma set_insertBy: "set (insertBy cmp x ys) = insert x (set ys)"
  by (induction ys) auto

lemma mset_insertBy: "mset (insertBy cmp x ys) = add_mset x (mset ys)"
  by (induction ys) auto

lemma mset_sortBy: "mset (sortBy cmp xs) = mset xs"
  by (induction xs) (simp_all add: sortBy_def mset_insertBy)

lemma set_sortBy: "set (sortBy cmp xs) = set xs"
  using mset_sortBy [of cmp xs] by (metis set_mset_mset)

lemma sorted_insertBy:
  assumes tot: "\<And>a b. cmp a b \<le> 0 \<or> cmp b a \<le> 0"
    and trans: "\<And>a b c. cmp a b \<le> 0 \<Longrightarrow> cmp b c \<le> 0 \<Longrightarrow> cmp a c \<le> 0"
  shows "sorted_wrt (\<lambda>a b. cmp a b \<le> 0) ys \<Longrightarrow> sorted_wrt (\<lambda>a b. cmp a b \<le> 0) (insertBy cmp x ys)"
proof (induction ys)
  case Nil then show ?case by simp
next
  case (Cons y ys)
  show ?case
  proof (cases "cmp x y \<le> 0")
    case True
    have "\<forall>z\<in>set ys. cmp x z \<le> 0"
      using Cons.prems True trans by auto
    then show ?thesis using True Cons.prems by simp
  next
    case False
    then have "cmp y x \<le> 0" using tot [of x y] by simp
    then show ?thesis using False Cons by (auto simp: set_insertBy)
  qed
qed

lemma sorted_sortBy:
  assumes tot: "\<And>a b. cmp a b \<le> 0 \<or> cmp b a \<le> 0"
    and trans: "\<And>a b c. cmp a b \<le> 0 \<Longrightarrow> cmp b c \<le> 0 \<Longrightarrow> cmp a c \<le> 0"
  shows "sorted_wrt (\<lambda>a b. cmp a b \<le> 0) (sortBy cmp xs)"
proof (induction xs)
  case Nil show ?case by (simp add: sortBy_def)
next
  case (Cons x xs)
  have "sortBy cmp (x # xs) = insertBy cmp x (sortBy cmp xs)" by (simp add: sortBy_def)
  then show ?case using sorted_insertBy [OF tot trans Cons.IH] by simp
qed

lemma sortBy_sorted_id:
  "sorted_wrt (\<lambda>a b. cmp a b \<le> 0) xs \<Longrightarrow> sortBy cmp xs = xs"
proof (induction xs)
  case Nil show ?case by (simp add: sortBy_def)
next
  case (Cons x xs)
  then have IH: "sortBy cmp xs = xs" by simp
  have "sortBy cmp (x # xs) = insertBy cmp x xs" using IH by (simp add: sortBy_def)
  also have "\<dots> = x # xs" using Cons.prems by (cases xs) auto
  finally show ?case .
qed

lemma consistent_items:
  assumes "consistentComparator cmp"
  shows "compareItems cmp a b \<le> 0 \<or> compareItems cmp b a \<le> 0"
    and "compareItems cmp a b \<le> 0 \<Longrightarrow> compareItems cmp b c \<le> 0 \<Longrightarrow> compareItems cmp a c \<le> 0"
  using assms unfolding consistentComparator_def compareItems_def by blast+

lemma sorted_items:
  assumes "consistentComparator cmp"
  shows "sorted_wrt (inOrder cmp) (sortBy (compareItems cmp) xs)"
proof -
  have "sorted_wrt (\<lambda>a b. compareItems cmp a b \<le> 0) (sortBy (compareItems cmp) xs)"
    by (rule sorted_sortBy) (use consistent_items [OF assms] in blast)+
  moreover have "inOrder cmp = (\<lambda>a b. compareItems cmp a b \<le> 0)"
    by (intro ext) (simp add: inOrder_def compareItems_def)
  ultimately show ?thesis by simp
qed


lemma trim_Nil [simp]: "trim [] = []"
  by (simp add: trim_def)

lemma not_header_Nil [simp]: "\<not> isProjectHeader []"
  by (simp add: isProjectHeader_def)

lemma parseProjects_closed: "parseProjects ls = closed (foldl parseStep ([], None) ls)"
  by (simp add: parseProjects_def closed_def split: prod.splits option.splits)

lemma parseStep_header:
  "isProjectHeader (trim l) \<Longrightarrow>
     parseStep st l = (closed st, Some \<lparr>header = l, items = [], trailingEmpty = 0\<rparr>)"
  by (cases st) (simp add: parseStep_def closed_def Let_def split: option.splits)

lemma parseStep_blank:
  "parseStep (ps, Some p) [] = (ps, Some (p\<lparr>trailingEmpty := Suc (trailingEmpty p)\<rparr>))"
  by (simp add: parseStep_def Let_def)

lemma parseStep_item:
  "trim l \<noteq> [] \<Longrightarrow> \<not> isProjectHeader (trim l) \<Longrightarrow>
     parseStep (ps, Some p) l =
       (ps, Some (p\<lparr>items := items p @ replicate (trailingEmpty p) [] @ [l], trailingEmpty := 0\<rparr>))"
  by (simp add: parseStep_def Let_def)

lemma feed_items:
  assumes "\<forall>a\<in>set its. itemOK a"
  shows "\<exists>p'. foldl parseStep (ps, Some p) its = (ps, Some p') \<and> header p' = header p \<and>
           items p' @ replicate (trailingEmpty p') [] =
             items p @ replicate (trailingEmpty p) [] @ its \<and>
           (its \<noteq> [] \<and> trim (last its) \<noteq> [] \<longrightarrow> trailingEmpty p' = 0)"
  using assms
proof (induction its rule: rev_induct)
  case Nil then show ?case by simp
next
  case (snoc a its)
  then obtain p' where f: "foldl parseStep (ps, Some p) its = (ps, Some p')"
    and h: "header p' = header p"
    and c: "items p' @ replicate (trailingEmpty p') [] = items p @ replicate (trailingEmpty p) [] @ its"
    by auto
  have ok: "itemOK a" using snoc.prems by simp
  show ?case
  proof (cases "a = []")
    case True
    have "replicate (Suc (trailingEmpty p')) ([]::string) = replicate (trailingEmpty p') [] @ [[]]"
      by (simp add: replicate_append_same)
    then show ?thesis using True f h c by (simp add: parseStep_blank)
  next
    case False
    with ok have "trim a \<noteq> []" "\<not> isProjectHeader (trim a)" by (simp_all add: itemOK_def)
    then show ?thesis using f h c by (simp add: parseStep_item)
  qed
qed

lemma feed_project:
  assumes "projectOK q"
  shows "\<exists>p'. foldl parseStep st (header q # items q) = (closed st, Some p') \<and>
           content p' = content q \<and> trailingEmpty p' = 0"
proof -
  let ?new = "\<lparr>header = header q, items = [], trailingEmpty = 0\<rparr>"
  from assms have hd: "isProjectHeader (trim (header q))"
    and its: "\<forall>a\<in>set (items q). itemOK a"
    and lst: "items q = [] \<or> trim (last (items q)) \<noteq> []"
    by (simp_all add: projectOK_def)
  from feed_items [OF its, of "closed st" ?new]
  obtain p' where f: "foldl parseStep (closed st, Some ?new) (items q) = (closed st, Some p')"
    and h: "header p' = header q"
    and c: "items p' @ replicate (trailingEmpty p') [] = items q"
    and z: "items q \<noteq> [] \<and> trim (last (items q)) \<noteq> [] \<longrightarrow> trailingEmpty p' = 0"
    by auto
  have te: "trailingEmpty p' = 0"
  proof (cases "items q = []")
    case True with c show ?thesis by simp
  next
    case False with lst z show ?thesis by simp
  qed
  with c have "items p' = items q" by simp
  then show ?thesis using f h te by (simp add: parseStep_header [OF hd] content_def)
qed

lemma feed_rebuilt:
  "qs \<noteq> [] \<Longrightarrow> \<forall>q\<in>set qs. projectOK q \<Longrightarrow>
     map content (closed (foldl parseStep st (rebuildLines qs))) =
       map content (closed st) @ map content qs"
proof (induction qs arbitrary: st rule: rebuildLines.induct)
  case 1 then show ?case by simp
next
  case (2 q)
  then have "projectOK q" by simp
  from feed_project [OF this, of st] show ?case by (auto simp: closed_def)
next
  case (3 q q' rest)
  then have ok: "projectOK q" by simp
  from feed_project [OF ok, of st]
  obtain p' where f: "foldl parseStep st (header q # items q) = (closed st, Some p')"
    and c: "content p' = content q" by auto
  let ?st2 = "(closed st, Some (p'\<lparr>trailingEmpty := Suc (trailingEmpty p')\<rparr>))"
  have lines: "rebuildLines (q # q' # rest) = (header q # items q) @ [] # rebuildLines (q' # rest)"
    by simp
  have "foldl parseStep st (rebuildLines (q # q' # rest)) =
      foldl parseStep ?st2 (rebuildLines (q' # rest))"
    unfolding lines foldl_append f by (simp add: parseStep_blank)
  moreover have "map content (closed (foldl parseStep ?st2 (rebuildLines (q' # rest)))) =
      map content (closed ?st2) @ map content (q' # rest)"
    by (rule "3.IH") (use "3.prems" in simp_all)
  moreover have "map content (closed ?st2) = map content (closed st) @ [content q]"
    using c by (simp add: closed_def content_def)
  ultimately show ?case by simp
qed

lemma parse_rebuilt:
  assumes "\<forall>q\<in>set qs. projectOK q"
  shows "map content (parseProjects (rebuildLines qs)) = map content qs"
proof (cases "qs = []")
  case True then show ?thesis by (simp add: parseProjects_def)
next
  case False
  from feed_rebuilt [OF False assms, of "([], None)"]
  show ?thesis by (simp add: parseProjects_closed closed_def)
qed

lemma parseStep_ok:
  assumes inv: "(\<forall>p\<in>set (fst st). projectOK p) \<and> (\<forall>p. snd st = Some p \<longrightarrow> projectOK p)"
    and l: "LF \<notin> set l"
  shows "(\<forall>p\<in>set (fst (parseStep st l)). projectOK p) \<and>
         (\<forall>p. snd (parseStep st l) = Some p \<longrightarrow> projectOK p)"
proof -
  obtain ps cur where st: "st = (ps, cur)" by (cases st)
  show ?thesis
  proof (cases "isProjectHeader (trim l)")
    case True
    have "\<forall>p\<in>set (closed st). projectOK p"
      using inv st by (auto simp: closed_def split: option.splits)
    moreover have "projectOK \<lparr>header = l, items = [], trailingEmpty = 0\<rparr>"
      using True l by (simp add: projectOK_def)
    ultimately show ?thesis by (simp add: parseStep_header [OF True])
  next
    case False
    show ?thesis
    proof (cases cur)
      case None
      then show ?thesis using inv st False by (simp add: parseStep_def Let_def)
    next
      case (Some p)
      with inv st have ok: "projectOK p" by simp
      show ?thesis
      proof (cases "trim l = []")
        case True
        have "projectOK (p\<lparr>trailingEmpty := Suc (trailingEmpty p)\<rparr>)"
          using ok by (simp add: projectOK_def)
        then show ?thesis using inv st Some False True by (simp add: parseStep_def Let_def)
      next
        case nb: False
        have "projectOK (p\<lparr>items := items p @ replicate (trailingEmpty p) [] @ [l], trailingEmpty := 0\<rparr>)"
          using ok nb False l by (auto simp: projectOK_def itemOK_def)
        then show ?thesis using inv st Some False nb by (simp add: parseStep_def Let_def)
      qed
    qed
  qed
qed

lemma foldl_parseStep_ok:
  assumes "\<forall>l\<in>set ls. LF \<notin> set l"
    and "(\<forall>p\<in>set (fst st). projectOK p) \<and> (\<forall>p. snd st = Some p \<longrightarrow> projectOK p)"
  shows "(\<forall>p\<in>set (fst (foldl parseStep st ls)). projectOK p) \<and>
         (\<forall>p. snd (foldl parseStep st ls) = Some p \<longrightarrow> projectOK p)"
  using assms
proof (induction ls arbitrary: st)
  case Nil then show ?case by simp
next
  case (Cons l ls)
  have "(\<forall>p\<in>set (fst (parseStep st l)). projectOK p) \<and>
         (\<forall>p. snd (parseStep st l) = Some p \<longrightarrow> projectOK p)"
    by (rule parseStep_ok) (use Cons.prems in simp_all)
  with Cons.IH [of "parseStep st l"] Cons.prems(1) show ?case by simp
qed

lemma parseProjects_ok:
  assumes "\<forall>l\<in>set ls. LF \<notin> set l"
  shows "\<forall>p\<in>set (parseProjects ls). projectOK p"
proof -
  have "(\<forall>p\<in>set (fst (foldl parseStep ([], None) ls)). projectOK p) \<and>
         (\<forall>p. snd (foldl parseStep ([], None) ls) = Some p \<longrightarrow> projectOK p)"
    by (rule foldl_parseStep_ok [OF assms]) simp
  then show ?thesis
    by (cases "foldl parseStep ([], None) ls")
       (auto simp: parseProjects_closed closed_def split: option.splits)
qed

lemma sortKey_Nil [simp]: "sortKey [] = []"
  by (simp add: sortKey_def contextOf_def)

lemma last_insertBy:
  "ys \<noteq> [] \<Longrightarrow> last (insertBy c x ys) = last ys \<or> last (insertBy c x ys) = x"
proof (induction ys)
  case Nil then show ?case by simp
next
  case (Cons y ys)
  show ?case
  proof (cases "c x y \<le> 0")
    case True then show ?thesis by simp
  next
    case False
    have ne: "insertBy c x ys \<noteq> []" by (cases ys) simp_all
    show ?thesis
    proof (cases "ys = []")
      case True then show ?thesis using False by simp
    next
      case nonempty: False
      with Cons.IH have "last (insertBy c x ys) = last ys \<or> last (insertBy c x ys) = x" by simp
      then show ?thesis using False ne nonempty by simp
    qed
  qed
qed

lemma insertBy_front: "c x (hd ys) \<le> 0 \<Longrightarrow> ys \<noteq> [] \<Longrightarrow> insertBy c x ys = x # ys"
  by (cases ys) simp_all

lemma sortBy_Nil_iff: "sortBy c xs = [] \<longleftrightarrow> xs = []"
  using mset_sortBy [of c xs] by (metis mset_zero_iff)

lemma sort_keeps_last_nonblank:
  assumes e: "emptyFirst cmp"
  shows "\<forall>a\<in>set xs. itemOK a \<Longrightarrow> xs = [] \<or> trim (last xs) \<noteq> [] \<Longrightarrow>
     sortBy (compareItems cmp) xs = [] \<or> trim (last (sortBy (compareItems cmp) xs)) \<noteq> []"
proof (induction xs)
  case Nil then show ?case by (simp add: sortBy_def)
next
  case (Cons x xs)
  let ?ys = "sortBy (compareItems cmp) xs"
  have step: "sortBy (compareItems cmp) (x # xs) = insertBy (compareItems cmp) x ?ys"
    by (simp add: sortBy_def)
  show ?case
  proof (cases "xs = []")
    case True
    then show ?thesis using Cons.prems by (simp add: sortBy_def)
  next
    case False
    then have ne: "?ys \<noteq> []" by (simp add: sortBy_Nil_iff)
    have "xs = [] \<or> trim (last xs) \<noteq> []" using Cons.prems False by simp
    with Cons.IH Cons.prems ne have ly: "trim (last ?ys) \<noteq> []" by simp
    show ?thesis
    proof (cases "trim x = []")
      case True
      with Cons.prems have "x = []" by (simp add: itemOK_def)
      then have "compareItems cmp x (hd ?ys) \<le> 0"
        using e by (simp add: compareItems_def emptyFirst_def)
      then have "insertBy (compareItems cmp) x ?ys = x # ?ys" using ne by (rule insertBy_front)
      then show ?thesis unfolding step using ne ly by simp
    next
      case nb: False
      from last_insertBy [OF ne, of "compareItems cmp" x] ly nb
      have "trim (last (insertBy (compareItems cmp) x ?ys)) \<noteq> []" by auto
      then show ?thesis unfolding step by simp
    qed
  qed
qed

lemma sortProject_ok:
  assumes "emptyFirst cmp" and "projectOK p"
  shows "projectOK (sortProject cmp p)"
proof -
  from assms(2) have its: "\<forall>a\<in>set (items p). itemOK a"
    and lst: "items p = [] \<or> trim (last (items p)) \<noteq> []"
    by (simp_all add: projectOK_def)
  from sort_keeps_last_nonblank [OF assms(1) its lst] assms(2)
  show ?thesis by (simp add: projectOK_def sortProject_def set_sortBy)
qed

lemma splitLines_line: "LF \<notin> set l \<Longrightarrow> splitLines l = [l]"
  by (induction l) auto

lemma splitLines_append_LF:
  "LF \<notin> set l \<Longrightarrow> splitLines (l @ LF # rest) = l # splitLines rest"
  by (induction l) auto

lemma splitLines_joinLines:
  "ls \<noteq> [] \<Longrightarrow> \<forall>l\<in>set ls. LF \<notin> set l \<Longrightarrow> splitLines (joinLines ls) = ls"
proof (induction ls rule: joinLines.induct)
  case 1 then show ?case by simp
next
  case (2 l) then show ?case by (simp add: splitLines_line)
next
  case (3 l l' ls)
  then show ?case by (simp add: splitLines_append_LF)
qed

lemma project_lines_no_LF:
  "projectOK q \<Longrightarrow> l \<in> set (header q # items q) \<Longrightarrow> LF \<notin> set l"
  unfolding projectOK_def by auto

lemma rebuildLines_no_LF:
  "\<forall>q\<in>set qs. projectOK q \<Longrightarrow> \<forall>l\<in>set (rebuildLines qs). LF \<notin> set l"
proof (induction qs rule: rebuildLines.induct)
  case 1 show ?case by simp
next
  case (2 q)
  then have "projectOK q" by simp
  then show ?case using project_lines_no_LF [of q] by simp
next
  case (3 q q' rest)
  have ok: "projectOK q" using "3.prems" by simp
  have rest: "\<forall>q\<in>set (q' # rest). projectOK q" using "3.prems" by simp
  have IH: "\<forall>l\<in>set (rebuildLines (q' # rest)). LF \<notin> set l"
    by (rule "3.IH" [OF rest])
  have eq: "rebuildLines (q # q' # rest) = (header q # items q) @ [] # rebuildLines (q' # rest)"
    by simp
  show ?case
  proof
    fix l assume "l \<in> set (rebuildLines (q # q' # rest))"
    then have "l \<in> set (header q # items q) \<or> l = [] \<or> l \<in> set (rebuildLines (q' # rest))"
      unfolding eq by auto
    then show "LF \<notin> set l" using project_lines_no_LF [OF ok] IH by auto
  qed
qed

lemma rebuildLines_Nil_iff: "rebuildLines qs = [] \<longleftrightarrow> qs = []"
  by (cases qs rule: rebuildLines.cases) simp_all

lemma rebuildLines_content:
  "map content ps = map content qs \<Longrightarrow> rebuildLines ps = rebuildLines qs"
proof (induction ps arbitrary: qs rule: rebuildLines.induct)
  case 1 then show ?case by simp
next
  case (2 p)
  then obtain q where "qs = [q]" "content p = content q" by auto
  then show ?case by (simp add: content_def)
next
  case (3 p p' ps)
  then obtain q q' rest where qs: "qs = q # q' # rest" and c: "content p = content q"
    and r: "map content (p' # ps) = map content (q' # rest)" by auto
  from "3.IH" [OF r] c qs show ?case by (simp add: content_def)
qed

lemma content_sortProject:
  "content p = content q \<Longrightarrow> content (sortProject cmp p) = content (sortProject cmp q)"
  by (simp add: content_def sortProject_def)

lemma sortProject_twice:
  assumes "consistentComparator cmp"
  shows "content (sortProject cmp (sortProject cmp p)) = content (sortProject cmp p)"
proof -
  have "sorted_wrt (\<lambda>a b. compareItems cmp a b \<le> 0) (sortBy (compareItems cmp) (items p))"
    by (rule sorted_sortBy) (use consistent_items [OF assms] in blast)+
  then show ?thesis by (simp add: content_def sortProject_def sortBy_sorted_id)
qed

lemma map_content_sortProject:
  "map content ps = map content qs \<Longrightarrow>
     map content (map (sortProject cmp) ps) = map content (map (sortProject cmp) qs)"
proof (induction ps arbitrary: qs)
  case Nil then show ?case by simp
next
  case (Cons p ps)
  then obtain q rest where qs: "qs = q # rest" and c: "content p = content q"
    and r: "map content ps = map content rest" by auto
  from Cons.IH [OF r] content_sortProject [OF c, of cmp] qs show ?case by simp
qed

lemma map_content_sortProject_twice:
  assumes "consistentComparator cmp"
  shows "map content (map (sortProject cmp) (map (sortProject cmp) ps)) =
         map content (map (sortProject cmp) ps)"
  by (induction ps) (simp_all add: sortProject_twice [OF assms])

lemma sortByContext_empty: "sortByContext cmp [] = []"
proof -
  have "parseStep ([], None) [] = ([], None)"
    by (simp add: parseStep_def)
  then have "parseProjects [[]] = []" by (simp add: parseProjects_def)
  then show ?thesis by (simp add: sortByContext_def)
qed

text \<open>
  Claim C10. For a collation that is a consistent comparator and puts no key strictly
  before the empty key, sorting a text that is already the result of sorting returns it
  unchanged.
\<close>

theorem sort_by_context_idempotent:
  assumes c: "consistentComparator cmp" and e: "emptyFirst cmp"
  shows "sortByContext cmp (sortByContext cmp t) = sortByContext cmp t"
proof -
  let ?ps = "parseProjects (splitLines t)"
  let ?qs = "map (sortProject cmp) ?ps"
  have nolf: "\<forall>l\<in>set (splitLines t). LF \<notin> set l"
    using splitLines_no_LF by blast
  have pok: "\<forall>p\<in>set ?ps. projectOK p" by (rule parseProjects_ok [OF nolf])
  have ok: "\<forall>q\<in>set ?qs. projectOK q"
  proof
    fix q assume "q \<in> set ?qs"
    then obtain p where "p \<in> set ?ps" and q: "q = sortProject cmp p" by auto
    with pok have "projectOK p" by simp
    then show "projectOK q" unfolding q by (rule sortProject_ok [OF e])
  qed
  have once: "sortByContext cmp t = joinLines (rebuildLines ?qs)"
    by (simp add: sortByContext_def)
  show ?thesis
  proof (cases "?qs = []")
    case True
    then have "sortByContext cmp t = []" unfolding once by simp
    then show ?thesis by (simp add: sortByContext_empty)
  next
    case False
    then have ne: "rebuildLines ?qs \<noteq> []" unfolding rebuildLines_Nil_iff .
    have again: "splitLines (joinLines (rebuildLines ?qs)) = rebuildLines ?qs"
      by (rule splitLines_joinLines [OF ne rebuildLines_no_LF [OF ok]])
    have "map content (parseProjects (rebuildLines ?qs)) = map content ?qs"
      by (rule parse_rebuilt [OF ok])
    then have "map content (map (sortProject cmp) (parseProjects (rebuildLines ?qs))) =
        map content (map (sortProject cmp) ?qs)"
      by (rule map_content_sortProject)
    also have "\<dots> = map content ?qs"
      by (rule map_content_sortProject_twice [OF c])
    finally have "rebuildLines (map (sortProject cmp) (parseProjects (rebuildLines ?qs))) =
        rebuildLines ?qs" by (rule rebuildLines_content)
    then have "sortByContext cmp (joinLines (rebuildLines ?qs)) = joinLines (rebuildLines ?qs)"
      unfolding sortByContext_def again by simp
    then show ?thesis unfolding once .
  qed
qed


lemma codeUnitCompare_consistent: "consistentComparator codeUnitCompare"
  unfolding consistentComparator_def codeUnitCompare_def
  by (auto split: if_splits)

lemma codeUnitCompare_emptyFirst: "emptyFirst codeUnitCompare"
  unfolding emptyFirst_def codeUnitCompare_def
  by (auto split: if_splits simp: not_less)

lemma parse_example:
  "parseProjects (splitLines ''P:\<newline>bob - y\<newline>alice - x\<newline>'') =
     [\<lparr>header = ''P:'', items = [''bob - y'', ''alice - x''], trailingEmpty = 1\<rparr>]"
  by code_simp

lemma keys_example: "sortKey ''bob - y'' = ''bob''" "sortKey ''alice - x'' = ''alice''"
  by code_simp+

lemma sort_example:
  "0 < cmp ''bob'' ''alice'' \<Longrightarrow>
     sortByContext cmp ''P:\<newline>bob - y\<newline>alice - x\<newline>'' = ''P:\<newline>alice - x\<newline>bob - y''"
  unfolding sortByContext_def parse_example
  by (simp add: sortProject_def sortBy_def compareItems_def keys_example LF_def)

lemma preamble_example:
  "sortByContext cmp ''note\<newline>P:\<newline>a - x'' = ''P:\<newline>a - x''"
proof -
  have "parseProjects (splitLines ''note\<newline>P:\<newline>a - x'') =
     [\<lparr>header = ''P:'', items = [''a - x''], trailingEmpty = 0\<rparr>]"
    by code_simp
  then show ?thesis
    unfolding sortByContext_def
    by (simp add: sortProject_def sortBy_def LF_def)
qed

lemma cmp_example: "0 < codeUnitCompare ''bob'' ''alice''"
  by code_simp

theorem sort_by_context_idempotent_witness:
  "consistentComparator codeUnitCompare \<and> emptyFirst codeUnitCompare \<and>
   sortByContext codeUnitCompare ''P:\<newline>bob - y\<newline>alice - x\<newline>'' = ''P:\<newline>alice - x\<newline>bob - y'' \<and>
   sortByContext codeUnitCompare
     (sortByContext codeUnitCompare ''P:\<newline>bob - y\<newline>alice - x\<newline>'') =
   sortByContext codeUnitCompare ''P:\<newline>bob - y\<newline>alice - x\<newline>''"
  using sort_by_context_idempotent [OF codeUnitCompare_consistent codeUnitCompare_emptyFirst,
      of "''P:\<newline>bob - y\<newline>alice - x\<newline>''"]
    sort_example [of codeUnitCompare, OF cmp_example] codeUnitCompare_consistent codeUnitCompare_emptyFirst
  by blast

text \<open>What the sort does give, for a collation that is a consistent comparator: the items
  of a project come out as a rearrangement of the parsed items, in ascending order of the
  keys that the pattern of the sort extracts.\<close>

lemma items_sorted_by_sort_key:
  assumes "consistentComparator cmp"
  shows "mset (items (sortProject cmp p)) = mset (items p) \<and>
         sorted_wrt (inOrder cmp) (items (sortProject cmp p))"
  using sorted_items [OF assms, of "items p"] by (simp add: sortProject_def mset_sortBy)

lemma parse_indented_example:
  "parseProjects (splitLines ''P:\<newline> bob - y\<newline>alice - x'') =
     [\<lparr>header = ''P:'', items = ['' bob - y'', ''alice - x''], trailingEmpty = 0\<rparr>]"
  by code_simp

lemma keys_indented_example:
  "contextOf '' bob - y'' = Some '' bob''" "sortKey '' bob - y'' = '' bob''"
  "sortKey ''alice - x'' = ''alice''"
  by code_simp+

lemma sort_indented_example:
  "sortByContext cmp ''P:\<newline> bob - y\<newline>alice - x'' =
     (if cmp '' bob'' ''alice'' \<le> 0 then ''P:\<newline> bob - y\<newline>alice - x''
      else ''P:\<newline>alice - x\<newline> bob - y'')"
  unfolding sortByContext_def parse_indented_example
  by (simp add: sortProject_def sortBy_def compareItems_def keys_indented_example LF_def)

text \<open>
  Claim C4. The pattern of the sort, \<^verbatim>\<open>/^(.+?)\s+-\s/\<close>, has no group for the indentation,
  so the key of an indented item keeps its leading white space: the item \<^verbatim>\<open> bob - y\<close> has
  the context \<^verbatim>\<open>bob\<close> (what \<^verbatim>\<open>updateDecorations\<close> takes as \<^verbatim>\<open>match[2]\<close>), and the sort
  compares the key \<^verbatim>\<open> bob\<close>, one space before the name. Whenever the collation does not put
  that key after \<^verbatim>\<open>alice\<close> (a collation that orders white space before letters), the
  document with the lines \<^verbatim>\<open>P:\<close>, \<^verbatim>\<open> bob - y\<close>, \<^verbatim>\<open>alice - x\<close> is returned as it is, with
  \<^verbatim>\<open>bob\<close> before \<^verbatim>\<open>alice\<close>.
\<close>

theorem sort_key_keeps_indentation:
  "contextOf '' bob - y'' = Some '' bob'' \<and>
   sortKey '' bob - y'' = '' bob'' \<and>
   sortKey ''alice - x'' = ''alice'' \<and>
   sortByContext cmp ''P:\<newline> bob - y\<newline>alice - x'' =
     (if cmp '' bob'' ''alice'' \<le> 0 then ''P:\<newline> bob - y\<newline>alice - x''
      else ''P:\<newline>alice - x\<newline> bob - y'')"
  using keys_indented_example sort_indented_example [of cmp] by simp

text \<open>With the order of the code units, where the space is before every letter, the
  document is unchanged.\<close>

lemma sort_indented_code_units:
  "sortByContext codeUnitCompare ''P:\<newline> bob - y\<newline>alice - x'' = ''P:\<newline> bob - y\<newline>alice - x''"
proof -
  have "codeUnitCompare '' bob'' ''alice'' \<le> 0" by code_simp
  then show ?thesis by (simp add: sort_indented_example)
qed

text \<open>
  Claim C3. The lines before the first project header are not kept: the parsing loop
  puts them into no project, and the whole text is replaced by the rebuilt projects. The
  line \<^verbatim>\<open>note\<close> of this document is gone after the transform.
\<close>

theorem sort_by_context_drops_preamble:
  "sortByContext cmp ''note\<newline>P:\<newline>a - x'' = ''P:\<newline>a - x''"
  by (rule preamble_example)

section \<open>Mark done on concrete documents\<close>

text \<open>A blank line under the cursor leaves the text as it is, and so does a line whose
  text ends with a colon.\<close>

lemma markDone_blank_unchanged:
  "trim (splitLines t ! i) = [] \<Longrightarrow> markDone t i = t"
  by (simp add: markDone_def Let_def)

lemma markDone_colon_unchanged:
  "endsWith (splitLines t ! i) '':'' \<Longrightarrow> markDone t i = t"
  by (simp add: markDone_def Let_def)

text \<open>The example of the specification: there is no \<^verbatim>\<open>Done:\<close> line, the item is removed
  and a new section with the item is put after the end of the text.\<close>

lemma markDone_creates_section:
  "markDone ''Work:\<newline>alice - fix bug\<newline>'' 1 = ''Work:\<newline>\<newline>\<newline>Done:\<newline>alice - fix bug\<newline>''"
  by code_simp

text \<open>With a \<^verbatim>\<open>Done:\<close> line and no earlier occurrence of \<^verbatim>\<open>Done:\<close> the item becomes the
  first line of that section.\<close>

lemma markDone_into_section:
  "markDone ''Work:\<newline>alice - x\<newline>bob - y\<newline>Done:\<newline>old\<newline>'' 1 =
     ''Work:\<newline>bob - y\<newline>Done:\<newline>alice - x\<newline>old\<newline>''"
  by code_simp

text \<open>
  Claim C1. The command looks for a line that is \<^verbatim>\<open>Done:\<close> and then takes the place to
  insert at from the first occurrence of \<^verbatim>\<open>Done:\<close> anywhere in the text. In this document
  line 3 (\<^verbatim>\<open>bob - y\<close>) is neither blank nor a header and line 4 is the \<^verbatim>\<open>Done:\<close> header,
  but \<^verbatim>\<open>Done:\<close> first occurs inside line 1: the item is put after line 1, into section
  \<^verbatim>\<open>A:\<close>, and the line after the \<^verbatim>\<open>Done:\<close> header is still \<^verbatim>\<open>old\<close>.
\<close>

theorem mark_done_uses_first_occurrence:
  "splitLines ''A:\<newline>see Done: below - a\<newline>B:\<newline>bob - y\<newline>Done:\<newline>old'' =
     [''A:'', ''see Done: below - a'', ''B:'', ''bob - y'', ''Done:'', ''old''] \<and>
   trim ''bob - y'' \<noteq> [] \<and> \<not> isProjectHeader (trim ''bob - y'') \<and>
   trim ''Done:'' = ''Done:'' \<and>
   markDone ''A:\<newline>see Done: below - a\<newline>B:\<newline>bob - y\<newline>Done:\<newline>old'' 3 =
     ''A:\<newline>see Done: below - a\<newline>bob - y\<newline>B:\<newline>Done:\<newline>old''"
  by code_simp

text \<open>
  Claim C2. The guard of the command tests the untrimmed text of the line for a final
  colon. Line 0 of this document is a project header (its trimmed text is \<^verbatim>\<open>Work:\<close>) with a
  space after the colon: the guard lets it through and the header is moved into a new
  \<^verbatim>\<open>Done:\<close> section.
\<close>

theorem mark_done_moves_header_with_trailing_space:
  "splitLines ''Work: \<newline>alice - x'' ! 0 = ''Work: '' \<and>
   isProjectHeader (trim ''Work: '') \<and>
   markDone ''Work: \<newline>alice - x'' 0 = ''alice - x\<newline>\<newline>Done:\<newline>Work: \<newline>''"
  by code_simp

end
